theory Spec2Isabelle
  imports Main "HOL-Library.Char_ord" "HOL-Library.List_Lexorder" "HOL-Library.Product_Lexorder"
    "HOL-Library.Multiset"
begin

section \<open>Python values and strings\<close>

text \<open>
  A Python \<^verbatim>\<open>str\<close> is a sequence of code points. It is modelled as a HOL
  \<^typ>\<open>string\<close> in which every \<^typ>\<open>char\<close> stands for one code point below 256
  (the Latin-1 range). With \<^verbatim>\<open>Char_ord\<close> and \<^verbatim>\<open>List_Lexorder\<close> the order on
  \<^typ>\<open>string\<close> is the lexicographic order by code point, which is how Python compares
  strings.
\<close>

datatype pyerror = ValueError | TransformError string

text \<open>
  \<^verbatim>\<open>str.isnumeric\<close> on code points below 256: the ASCII digits, the superscripts
  two, three and one (U+00B2, U+00B3, U+00B9) and the vulgar fractions (U+00BC to U+00BE).
  \<^verbatim>\<open>str.isdecimal\<close>, the characters \<^verbatim>\<open>int\<close> parses, are the ASCII digits only.
\<close>

definition isdecimal :: "char \<Rightarrow> bool" where
  "isdecimal c = (48 \<le> (of_char c :: nat) \<and> (of_char c :: nat) \<le> 57)"

definition isnumeric :: "char \<Rightarrow> bool" where
  "isnumeric c = (isdecimal c \<or> (of_char c :: nat) \<in> {178, 179, 185, 188, 189, 190})"

definition digit_value :: "char \<Rightarrow> int" where
  "digit_value c = int (of_char c) - 48"

text \<open>
  \<^verbatim>\<open>int(s)\<close> for a run \<open>s\<close> of numeric characters, the only strings
  \<^verbatim>\<open>measureNumberComesBefore\<close> hands it (no sign, blank or underscore is numeric):
  the empty string and a string with a numeric character that is not a decimal digit
  raise \<^verbatim>\<open>ValueError\<close>. The interpreter's limit on the number of digits of a
  converted string is not modelled.
\<close>

definition py_int :: "string \<Rightarrow> pyerror + int" where
  "py_int s =
     (if s = [] \<or> \<not> list_all isdecimal s then Inl ValueError
      else Inr (foldl (\<lambda>acc c. 10 * acc + digit_value c) 0 s))"

section \<open>Identifier comparator: measureNumberComesBefore\<close>

text \<open>
  The inner function \<^verbatim>\<open>splitSuffix\<close>: the loop appends numeric characters to
  \<^verbatim>\<open>number\<close> and breaks at the first other character; the suffix is the slice
  \<^verbatim>\<open>measureNumber[len(number):]\<close>.
\<close>

fun splitSuffix_loop :: "string \<Rightarrow> string \<Rightarrow> string" where
  "splitSuffix_loop number [] = number"
| "splitSuffix_loop number (char # rest) =
     (if isnumeric char then splitSuffix_loop (number @ [char]) rest else number)"

definition splitSuffix :: "string \<Rightarrow> string \<times> string" where
  "splitSuffix measureNumber =
     (let number = splitSuffix_loop [] measureNumber;
          suffix = drop (length number) measureNumber
      in (number, suffix))"

text \<open>The maximal leading run of decimal digits of a measure identifier.\<close>

definition leading_digits :: "string \<Rightarrow> string" where
  "leading_digits s = takeWhile isdecimal s"

text \<open>
  The last line of the source, \<^verbatim>\<open>m1Suffix is sortedSuffixes[0]\<close>, compares object
  identities. The two suffix objects are tagged 1 and 2; \<^verbatim>\<open>sorted\<close> is stable
  (\<^const>\<open>sort_key\<close> is), so the first element of the sorted list is the object
  \<^verbatim>\<open>m1Suffix\<close> exactly when \<^verbatim>\<open>m2Suffix < m1Suffix\<close> is false. Two suffixes of different
  value are different objects; two of equal value give \<^verbatim>\<open>True\<close> whether or not
  the interpreter shares them, since then \<^verbatim>\<open>sortedSuffixes[0]\<close> is \<^verbatim>\<open>m1Suffix\<close>.
\<close>

definition measureNumberComesBefore :: "string \<Rightarrow> string \<Rightarrow> pyerror + bool" where
  "measureNumberComesBefore mNum1 mNum2 =
     (if mNum1 = mNum2 then Inr False
      else
        (let (m1Numeric, m1Suffix) = splitSuffix mNum1;
             (m2Numeric, m2Suffix) = splitSuffix mNum2
         in (case py_int m1Numeric of
               Inl e \<Rightarrow> Inl e
             | Inr n1 \<Rightarrow>
                 (case py_int m2Numeric of
                    Inl e \<Rightarrow> Inl e
                  | Inr n2 \<Rightarrow>
                      if n1 \<noteq> n2 then Inr (n1 < n2)
                      else
                        (let sortedSuffixes =
                               sort_key snd [(1::nat, m1Suffix), (2, m2Suffix)]
                         in Inr (fst (hd sortedSuffixes) = 1))))))"

section \<open>Tree nodes\<close>

text \<open>
  An \<^verbatim>\<open>xml.etree.ElementTree.Element\<close>: tag, attribute dictionary, text, tail and
  children. The attribute dictionary keeps insertion order, so it is an association list
  (with distinct keys, see \<open>wf_element\<close> below); \<^verbatim>\<open>text\<close> and \<^verbatim>\<open>tail\<close> may be
  \<^verbatim>\<open>None\<close>. A tree is a value: each node object occurs once in it, and mutation in
  place is modelled by returning the updated tree.
\<close>

datatype element =
  Element (tag: string) (attrib: "(string \<times> string) list") (elem_text: "string option")
    (tail: "string option") (children: "element list")

definition set_tail :: "string option \<Rightarrow> element \<Rightarrow> element" where
  "set_tail t e = Element (tag e) (attrib e) (elem_text e) t (children e)"

definition set_attrib :: "(string \<times> string) list \<Rightarrow> element \<Rightarrow> element" where
  "set_attrib a e = Element (tag e) a (elem_text e) (tail e) (children e)"

definition set_children :: "element list \<Rightarrow> element \<Rightarrow> element" where
  "set_children cs e = Element (tag e) (attrib e) (elem_text e) (tail e) cs"

text \<open>\<^verbatim>\<open>d[k] = v\<close> on an insertion-ordered dictionary: an existing key keeps its place.\<close>

fun dict_set :: "('k \<times> 'v) list \<Rightarrow> 'k \<Rightarrow> 'v \<Rightarrow> ('k \<times> 'v) list" where
  "dict_set [] k v = [(k, v)]"
| "dict_set ((k', v') # d) k v =
     (if k' = k then (k, v) # d else (k', v') # dict_set d k v)"

text \<open>\<^verbatim>\<open>d.update(pairs)\<close>: one assignment per pair, in order.\<close>

definition dict_update :: "('k \<times> 'v) list \<Rightarrow> ('k \<times> 'v) list \<Rightarrow> ('k \<times> 'v) list" where
  "dict_update d pairs = foldl (\<lambda>d (k, v). dict_set d k v) d pairs"

text \<open>\<^verbatim>\<open>Element.get(key)\<close> (default \<^verbatim>\<open>None\<close>) and \<^verbatim>\<open>Element.set(key, value)\<close>.\<close>

definition el_get :: "element \<Rightarrow> string \<Rightarrow> string option" where
  "el_get e k = map_of (attrib e) k"

definition el_set :: "element \<Rightarrow> string \<Rightarrow> string \<Rightarrow> element" where
  "el_set e k v = set_attrib (dict_set (attrib e) k v) e"

text \<open>\<^verbatim>\<open>Element.iter()\<close>: the node and all its descendants, in document order.\<close>

fun iter :: "element \<Rightarrow> element list" where
  "iter (Element tg at tx ta cs) = Element tg at tx ta cs # concat (map iter cs)"

text \<open>The dictionary invariant: in every node the attribute names are distinct.\<close>

definition wf_element :: "element \<Rightarrow> bool" where
  "wf_element e = list_all (\<lambda>n. distinct (map fst (attrib n))) (iter e)"

section \<open>Canonical serializer: indent and dumpString\<close>

text \<open>
  Whitespace as \<^verbatim>\<open>str.strip()\<close> sees it, on code points below 256: U+0009 to U+000D,
  U+001C to U+0020, U+0085 and U+00A0.
\<close>

definition isspace :: "char \<Rightarrow> bool" where
  "isspace c =
     ((9 \<le> (of_char c :: nat) \<and> (of_char c :: nat) \<le> 13) \<or>
      (28 \<le> (of_char c :: nat) \<and> (of_char c :: nat) \<le> 32) \<or>
      (of_char c :: nat) = 133 \<or> (of_char c :: nat) = 160)"

definition rstrip :: "string \<Rightarrow> string" where
  "rstrip s = rev (dropWhile isspace (rev s))"

definition strip :: "string \<Rightarrow> string" where
  "strip s = dropWhile isspace (rstrip s)"

text \<open>The test \<^verbatim>\<open>not s or not s.strip()\<close> that \<^verbatim>\<open>indent\<close> applies to text and tail.\<close>

definition blank :: "string option \<Rightarrow> bool" where
  "blank s = (case s of None \<Rightarrow> True | Some t \<Rightarrow> t = [] \<or> strip t = [])"

text \<open>The string \<^verbatim>\<open>'\n' + level * '  '\<close>.\<close>

definition indent_str :: "nat \<Rightarrow> string" where
  "indent_str level = CHR 0x0A # concat (replicate level ''  '')"

text \<open>
  After the loop over the children, \<^verbatim>\<open>subElem\<close> is the last child (or \<^verbatim>\<open>None\<close> when
  there is none), and its tail is assigned.
\<close>

fun set_last_tail :: "string \<Rightarrow> element list \<Rightarrow> element list" where
  "set_last_tail i [] = []"
| "set_last_tail i [subElem] = [set_tail (Some i) subElem]"
| "set_last_tail i (e # es) = e # set_last_tail i es"

fun indent :: "element \<Rightarrow> nat \<Rightarrow> element" where
  "indent (Element tg at tx ta cs) level =
     (let i = indent_str level in
      if length cs \<noteq> 0 then
        (let tx1 = (if blank tx then Some (i @ ''  '') else tx);
             ta1 = (if blank ta then Some i else ta);
             cs1 = map (\<lambda>subElem. indent subElem (level + 1)) cs;
             cs2 = set_last_tail i cs1;
             ta2 = (if blank ta1 then Some (CHR 0x0A # concat (replicate level ''  '')) else ta1)
         in Element tg at tx1 ta2 cs2)
      else
        Element tg at tx (if level \<noteq> 0 \<and> blank ta then Some i else ta) cs)"

text \<open>
  The loop of \<^verbatim>\<open>dumpString\<close> over \<^verbatim>\<open>xmlEl.iter()\<close>: a dictionary with more than one
  entry is cleared and refilled from its sorted items.
\<close>

definition sort_attrib :: "(string \<times> string) list \<Rightarrow> (string \<times> string) list" where
  "sort_attrib d =
     (if length d > 1 then (let attribs = sort d in dict_update [] attribs)
      else d)"

fun sort_attribs :: "element \<Rightarrow> element" where
  "sort_attribs (Element tg at tx ta cs) =
     Element tg (sort_attrib at) tx ta (map sort_attribs cs)"

text \<open>
  \<^verbatim>\<open>dumpString\<close>. The serializer \<^verbatim>\<open>xml.etree.ElementTree.tostring\<close> belongs to the Python
  library, not to this repository, and is a parameter. \<^verbatim>\<open>copy.deepcopy\<close> gives a new
  tree of the same value that shares no node with the original. The result is the string
  returned and the caller's tree after the call: with \<^verbatim>\<open>noCopy\<close> the working tree
  \<^verbatim>\<open>xmlEl\<close> is the caller's tree itself and every assignment to it is seen by the
  caller; otherwise the assignments go to the copy and the caller's tree stays as it was.
  The next section has the same functions with the assignments made in a store, and
  lemma \<open>dumpString_h_refines\<close> shows that both components computed here are what
  the store then holds.
\<close>

definition deepcopy :: "element \<Rightarrow> element" where
  "deepcopy e = e"

definition dumpString :: "(element \<Rightarrow> string) \<Rightarrow> element \<Rightarrow> bool \<Rightarrow> string \<times> element" where
  "dumpString et_tostring obj noCopy =
     (let xmlEl = (if \<not> noCopy then deepcopy obj else obj);
          xmlEl = indent xmlEl 0;
          xmlEl = sort_attribs xmlEl;
          xStr = et_tostring xmlEl;
          xStr = rstrip xStr
      in (xStr, if noCopy then xmlEl else obj))"

text \<open>Two trees that differ only in the order of the entries of their attribute dictionaries.\<close>

fun attrib_reordered :: "element \<Rightarrow> element \<Rightarrow> bool" where
  "attrib_reordered (Element tg at tx ta cs) (Element tg' at' tx' ta' cs') =
     (tg = tg' \<and> mset at = mset at' \<and> tx = tx' \<and> ta = ta' \<and>
      list_all2 attrib_reordered cs cs')"

text \<open>The node at a path of child indices, and an update of the node at a path.\<close>

fun subtree :: "element \<Rightarrow> nat list \<Rightarrow> element option" where
  "subtree e [] = Some e"
| "subtree e (k # p) =
     (if k < length (children e) then subtree (children e ! k) p else None)"

fun update_at :: "(element \<Rightarrow> element) \<Rightarrow> nat list \<Rightarrow> element \<Rightarrow> element" where
  "update_at f [] e = f e"
| "update_at f (k # p) e =
     (if k < length (children e)
      then set_children ((children e)[k := update_at f p (children e ! k)]) e
      else e)"

section \<open>The same functions on a store\<close>

text \<open>
  \<^verbatim>\<open>indent\<close> and the attribute loop assign to fields of node objects, and
  \<^verbatim>\<open>dumpString\<close> chooses between the caller's objects and a deep copy of them. To state
  what a call leaves unchanged, the objects are put in a store: a node is a cell that
  holds its fields and the addresses of its children, \<open>cells\<close> maps addresses to
  cells, and the addresses below \<open>alloc\<close> are in use. A new object takes the address
  \<open>alloc\<close>.
\<close>

record node =
  n_tag :: string
  n_attrib :: "(string \<times> string) list"
  n_text :: "string option"
  n_tail :: "string option"
  n_children :: "nat list"

record heap =
  cells :: "nat \<Rightarrow> node"
  alloc :: nat

definition put_text :: "heap \<Rightarrow> nat \<Rightarrow> string option \<Rightarrow> heap" where
  "put_text h a t = h\<lparr>cells := (cells h)(a := (cells h a)\<lparr>n_text := t\<rparr>)\<rparr>"

definition put_tail :: "heap \<Rightarrow> nat \<Rightarrow> string option \<Rightarrow> heap" where
  "put_tail h a t = h\<lparr>cells := (cells h)(a := (cells h a)\<lparr>n_tail := t\<rparr>)\<rparr>"

definition put_attrib :: "heap \<Rightarrow> nat \<Rightarrow> (string \<times> string) list \<Rightarrow> heap" where
  "put_attrib h a d = h\<lparr>cells := (cells h)(a := (cells h a)\<lparr>n_attrib := d\<rparr>)\<rparr>"

definition new_node :: "heap \<Rightarrow> node \<Rightarrow> heap \<times> nat" where
  "new_node h n = (h\<lparr>cells := (cells h)(alloc h := n), alloc := Suc (alloc h)\<rparr>, alloc h)"

text \<open>A loop over a list whose body may fail; the state is threaded through.\<close>

fun opt_fold :: "('a \<Rightarrow> 's \<Rightarrow> 's option) \<Rightarrow> 'a list \<Rightarrow> 's \<Rightarrow> 's option" where
  "opt_fold f [] s = Some s"
| "opt_fold f (x # xs) s = (case f x s of None \<Rightarrow> None | Some s' \<Rightarrow> opt_fold f xs s')"

text \<open>
  The recursive functions follow child addresses, which in an arbitrary store need not
  end. They take the recursion depth that is left as \<open>fuel\<close> and return \<^verbatim>\<open>None\<close> when it
  is used up, as the interpreter stops at its recursion limit.

  \<^verbatim>\<open>copy.deepcopy\<close> of a node copies the children first and then allocates the copy of
  the node, with the fields of the original and the addresses of the copied children.
  (The memo with which \<^verbatim>\<open>deepcopy\<close> keeps a node that is reachable twice shared in the copy
  is not modelled; in a tree no node is.)
\<close>

fun deepcopy_h :: "nat \<Rightarrow> heap \<Rightarrow> nat \<Rightarrow> (heap \<times> nat) option" where
  "deepcopy_h 0 h a = None"
| "deepcopy_h (Suc fuel) h a =
     (case opt_fold
             (\<lambda>c (h, cs). case deepcopy_h fuel h c of
                            None \<Rightarrow> None
                          | Some (h', c') \<Rightarrow> Some (h', cs @ [c']))
             (n_children (cells h a)) (h, []) of
        None \<Rightarrow> None
      | Some (h', cs') \<Rightarrow> Some (new_node h' ((cells h a)\<lparr>n_children := cs'\<rparr>)))"

text \<open>\<^verbatim>\<open>indent\<close>, statement by statement, on the store.\<close>

fun indent_h :: "nat \<Rightarrow> heap \<Rightarrow> nat \<Rightarrow> nat \<Rightarrow> heap option" where
  "indent_h 0 h elem level = None"
| "indent_h (Suc fuel) h elem level =
     (let i = indent_str level in
      if length (n_children (cells h elem)) \<noteq> 0 then
        (let h = (if blank (n_text (cells h elem)) then put_text h elem (Some (i @ ''  '')) else h);
             h = (if blank (n_tail (cells h elem)) then put_tail h elem (Some i) else h)
         in case opt_fold (\<lambda>subElem h. indent_h fuel h subElem (level + 1))
                   (n_children (cells h elem)) h of
              None \<Rightarrow> None
            | Some h \<Rightarrow>
                (let h = put_tail h (last (n_children (cells h elem))) (Some i);
                     h = (if blank (n_tail (cells h elem))
                          then put_tail h elem (Some (CHR 0x0A # concat (replicate level ''  '')))
                          else h)
                 in Some h))
      else
        Some (if level \<noteq> 0 \<and> blank (n_tail (cells h elem)) then put_tail h elem (Some i) else h))"

text \<open>The assignments of \<^verbatim>\<open>indent\<close> before and after its loop, named for the proofs.\<close>

definition indent_pre :: "heap \<Rightarrow> nat \<Rightarrow> nat \<Rightarrow> heap" where
  "indent_pre h elem level =
     (let i = indent_str level;
          h = (if blank (n_text (cells h elem)) then put_text h elem (Some (i @ ''  '')) else h);
          h = (if blank (n_tail (cells h elem)) then put_tail h elem (Some i) else h)
      in h)"

definition indent_post :: "heap \<Rightarrow> nat \<Rightarrow> nat \<Rightarrow> heap" where
  "indent_post h elem level =
     (let i = indent_str level;
          h = put_tail h (last (n_children (cells h elem))) (Some i);
          h = (if blank (n_tail (cells h elem))
               then put_tail h elem (Some (CHR 0x0A # concat (replicate level ''  '')))
               else h)
      in h)"

text \<open>The loop of \<^verbatim>\<open>dumpString\<close> over \<^verbatim>\<open>xmlEl.iter()\<close>, in document order.\<close>

fun sort_attribs_h :: "nat \<Rightarrow> heap \<Rightarrow> nat \<Rightarrow> heap option" where
  "sort_attribs_h 0 h el = None"
| "sort_attribs_h (Suc fuel) h el =
     (let h = put_attrib h el (sort_attrib (n_attrib (cells h el)))
      in opt_fold (\<lambda>c h. sort_attribs_h fuel h c) (n_children (cells h el)) h)"

text \<open>
  The tree that the store holds at an address, read to the given depth, and the
  addresses of its nodes in document order.
\<close>

fun load :: "nat \<Rightarrow> heap \<Rightarrow> nat \<Rightarrow> element option" where
  "load 0 h a = None"
| "load (Suc d) h a =
     map_option
       (Element (n_tag (cells h a)) (n_attrib (cells h a)) (n_text (cells h a))
          (n_tail (cells h a)))
       (those (map (load d h) (n_children (cells h a))))"

fun addrs :: "nat \<Rightarrow> heap \<Rightarrow> nat \<Rightarrow> nat list" where
  "addrs 0 h a = []"
| "addrs (Suc d) h a = a # concat (map (addrs d h) (n_children (cells h a)))"

text \<open>
  \<^verbatim>\<open>dumpString\<close> on the store. The serializer reads the tree under \<^verbatim>\<open>xmlEl\<close>; it is the
  same parameter as above, applied to the tree the store holds there. The result is the
  string and the store after the call.
\<close>

definition dumpString_h ::
  "nat \<Rightarrow> (element \<Rightarrow> string) \<Rightarrow> heap \<Rightarrow> nat \<Rightarrow> bool \<Rightarrow> (string \<times> heap) option" where
  "dumpString_h fuel et_tostring h obj noCopy =
     (case (if \<not> noCopy then deepcopy_h fuel h obj else Some (h, obj)) of
        None \<Rightarrow> None
      | Some (h, xmlEl) \<Rightarrow>
          (case indent_h fuel h xmlEl 0 of
             None \<Rightarrow> None
           | Some h \<Rightarrow>
               (case sort_attribs_h fuel h xmlEl of
                  None \<Rightarrow> None
                | Some h \<Rightarrow>
                    (case load fuel h xmlEl of
                       None \<Rightarrow> None
                     | Some t \<Rightarrow> Some (rstrip (et_tostring t), h)))))"

text \<open>
  \<open>tree_in d n h a\<close>: following child addresses from \<open>a\<close> ends within \<open>d\<close> steps, and
  every node met has an address from \<open>n\<close> up to \<open>alloc h\<close>. With \<open>n = 0\<close> this says
  that \<open>a\<close> is the root of a tree of depth at most \<open>d\<close> whose nodes are all in use.
\<close>

fun tree_in :: "nat \<Rightarrow> nat \<Rightarrow> heap \<Rightarrow> nat \<Rightarrow> bool" where
  "tree_in 0 n h a = False"
| "tree_in (Suc d) n h a =
     (n \<le> a \<and> a < alloc h \<and> list_all (tree_in d n h) (n_children (cells h a)))"

text \<open>
  Relations between the store before and after a step: the same cells in use and the same
  child addresses everywhere; the same cells below an address; an extension that leaves
  the cells in use as they were.
\<close>

definition same_shape :: "heap \<Rightarrow> heap \<Rightarrow> bool" where
  "same_shape h h' = (alloc h' = alloc h \<and> (\<forall>b. n_children (cells h' b) = n_children (cells h b)))"

definition frame :: "nat \<Rightarrow> heap \<Rightarrow> heap \<Rightarrow> bool" where
  "frame n h h' = (\<forall>b<n. cells h' b = cells h b)"

definition extends :: "heap \<Rightarrow> heap \<Rightarrow> bool" where
  "extends h h' = (alloc h \<le> alloc h' \<and> frame (alloc h) h h')"

section \<open>Ordered inserter: insertBeforeElements\<close>

text \<open>
  \<^verbatim>\<open>tagList\<close> is \<^verbatim>\<open>None\<close> or a collection of tag names; \<^verbatim>\<open>not tagList\<close> holds for
  \<^verbatim>\<open>None\<close> and for an empty collection. \<^verbatim>\<open>root.findall('*')\<close> lists the direct children
  of \<^verbatim>\<open>root\<close>. The set \<^verbatim>\<open>insertIndices\<close> starts as \<^verbatim>\<open>{len(root)}\<close> and the loop adds
  the index of every child whose tag is in \<^verbatim>\<open>tagList\<close>.
\<close>

definition append_child :: "element \<Rightarrow> element \<Rightarrow> element" where
  "append_child root ins = set_children (children root @ [ins]) root"

definition insert_child :: "element \<Rightarrow> nat \<Rightarrow> element \<Rightarrow> element" where
  "insert_child root index ins =
     set_children (take index (children root) @ ins # drop index (children root)) root"

definition insertBeforeElements :: "element \<Rightarrow> element \<Rightarrow> string list option \<Rightarrow> element" where
  "insertBeforeElements root ins tagList =
     (case tagList of
        None \<Rightarrow> append_child root ins
      | Some tags \<Rightarrow>
          if tags = [] then append_child root ins
          else
            (let insertIndices =
                   fold (\<lambda>(i, child) indices.
                           if tag child \<in> set tags then insert i indices else indices)
                     (enumerate 0 (children root)) {length (children root)}
             in insert_child root (Min insertIndices) ins))"

section \<open>Objects and the attribute synchronizers\<close>

text \<open>
  The Python values that fields of an object hold in this model, and \<^verbatim>\<open>str(value)\<close>.
  An object is the map from the names of its attributes to their values:
  \<^verbatim>\<open>hasattr\<close> asks whether the name is in the domain, \<^verbatim>\<open>setattr\<close> updates the map.
\<close>

datatype pyval = PyNone | PyBool bool | PyInt int | PyStr string

type_synonym pyobject = "string \<rightharpoonup> pyval"

fun str_nat :: "nat \<Rightarrow> string" where
  "str_nat n =
     (if n < 10 then [''0123456789'' ! n]
      else str_nat (n div 10) @ [''0123456789'' ! (n mod 10)])"

definition py_str :: "pyval \<Rightarrow> string" where
  "py_str v =
     (case v of
        PyNone \<Rightarrow> ''None''
      | PyBool b \<Rightarrow> (if b then ''True'' else ''False'')
      | PyInt i \<Rightarrow> (if i < 0 then CHR ''-'' # str_nat (nat (- i)) else str_nat (nat i))
      | PyStr s \<Rightarrow> s)"





text \<open>
  The two generic synchronizers. \<^verbatim>\<open>common.hyphenToCamelCase\<close> is defined in a module that
  is not among the sources and is a parameter. A transform may raise, so it returns an
  error or a value; the error propagates to the caller.
\<close>

definition setM21AttributeFromAttribute ::
  "(string \<Rightarrow> string) \<Rightarrow> pyobject \<Rightarrow> element \<Rightarrow> string \<Rightarrow> string option \<Rightarrow>
   (string \<Rightarrow> pyerror + pyval) option \<Rightarrow> pyerror + pyobject" where
  "setM21AttributeFromAttribute hyphenToCamelCase m21El xmlEl xmlAttributeName attributeName
       transform =
     (case el_get xmlEl xmlAttributeName of
        None \<Rightarrow> Inr m21El
      | Some v \<Rightarrow>
          (case (case transform of None \<Rightarrow> Inr (PyStr v) | Some f \<Rightarrow> f v) of
             Inl e \<Rightarrow> Inl e
           | Inr v' \<Rightarrow>
               (let attributeName =
                      (case attributeName of
                         None \<Rightarrow> hyphenToCamelCase xmlAttributeName
                       | Some a \<Rightarrow> a)
                in Inr (m21El(attributeName \<mapsto> v')))))"

definition setXMLAttributeFromAttribute ::
  "(string \<Rightarrow> string) \<Rightarrow> pyobject \<Rightarrow> element \<Rightarrow> string \<Rightarrow> string option \<Rightarrow>
   (pyval \<Rightarrow> pyerror + pyval) option \<Rightarrow> pyerror + element" where
  "setXMLAttributeFromAttribute hyphenToCamelCase m21El xmlEl xmlAttributeName attributeName
       transform =
     (let attributeName =
            (case attributeName of
               None \<Rightarrow> hyphenToCamelCase xmlAttributeName
             | Some a \<Rightarrow> a);
          v = (case m21El attributeName of None \<Rightarrow> PyNone | Some x \<Rightarrow> x)
      in if v = PyNone then Inr xmlEl
         else
           (case (case transform of None \<Rightarrow> Inr v | Some f \<Rightarrow> f v) of
              Inl e \<Rightarrow> Inl e
            | Inr v' \<Rightarrow> Inr (el_set xmlEl xmlAttributeName (py_str v'))))"

section \<open>Basic facts\<close>

lemma splitSuffix_loop_takeWhile:
  "splitSuffix_loop number s = number @ takeWhile isnumeric s"
  by (induction s arbitrary: number) simp_all

lemma splitSuffix_fst: "fst (splitSuffix s) = takeWhile isnumeric s"
  by (simp add: splitSuffix_def splitSuffix_loop_takeWhile Let_def)

lemma py_int_no_leading_digit:
  assumes "leading_digits s = []"
  shows "py_int (takeWhile isnumeric s) = Inl ValueError"
proof (cases s)
  case Nil
  then show ?thesis by (simp add: py_int_def)
next
  case (Cons c r)
  with assms have "\<not> isdecimal c"
    by (simp add: leading_digits_def split: if_splits)
  then show ?thesis
    using Cons by (simp add: py_int_def)
qed

lemma py_int_error: "py_int s = Inl e \<Longrightarrow> e = ValueError"
  by (simp add: py_int_def split: if_splits)

lemma measureNumberComesBefore_malformed:
  assumes "a \<noteq> b" and "leading_digits a = [] \<or> leading_digits b = []"
  shows "measureNumberComesBefore a b = Inl ValueError"
proof -
  obtain n1 s1 where a: "splitSuffix a = (n1, s1)" by (cases "splitSuffix a")
  obtain n2 s2 where b: "splitSuffix b = (n2, s2)" by (cases "splitSuffix b")
  have n1: "n1 = takeWhile isnumeric a" using a splitSuffix_fst [of a] by simp
  have n2: "n2 = takeWhile isnumeric b" using b splitSuffix_fst [of b] by simp
  from assms(2) have "py_int n1 = Inl ValueError \<or> py_int n2 = Inl ValueError"
    using py_int_no_leading_digit n1 n2 by blast
  then show ?thesis
    using assms(1) a b
    by (auto simp: measureNumberComesBefore_def split: sum.splits dest: py_int_error)
qed

text \<open>
  For two different identifiers whose numeric parts parse, the result in closed form.
  Both directions hold exactly when the integers and the suffixes are equal, and the
  relation is transitive as long as the first and the last identifier differ.
\<close>

lemma measureNumberComesBefore_value:
  assumes "x \<noteq> y" and "py_int (fst (splitSuffix x)) = Inr n1"
    and "py_int (fst (splitSuffix y)) = Inr n2"
  shows "measureNumberComesBefore x y =
         Inr (n1 < n2 \<or> (n1 = n2 \<and> snd (splitSuffix x) \<le> snd (splitSuffix y)))"
  using assms
  by (cases "splitSuffix x"; cases "splitSuffix y")
    (auto simp: measureNumberComesBefore_def)

lemma measureNumberComesBefore_both_ways_iff:
  assumes "x \<noteq> y" and "py_int (fst (splitSuffix x)) = Inr n1"
    and "py_int (fst (splitSuffix y)) = Inr n2"
  shows "(measureNumberComesBefore x y = Inr True \<and> measureNumberComesBefore y x = Inr True) \<longleftrightarrow>
         (n1 = n2 \<and> snd (splitSuffix x) = snd (splitSuffix y))"
    and "measureNumberComesBefore x y = Inr True \<or> measureNumberComesBefore y x = Inr True"
  using measureNumberComesBefore_value [OF assms]
    measureNumberComesBefore_value [OF assms(1) [symmetric] assms(3) assms(2)]
  by auto

lemma measureNumberComesBefore_trans_distinct:
  assumes "measureNumberComesBefore x y = Inr True" and "measureNumberComesBefore y z = Inr True"
    and "x \<noteq> z"
  shows "measureNumberComesBefore x z = Inr True"
proof -
  from assms(1) have xy: "x \<noteq> y" by (auto simp: measureNumberComesBefore_def)
  from assms(2) have yz: "y \<noteq> z" by (auto simp: measureNumberComesBefore_def)
  from assms(1) xy obtain n1 n2 where n1: "py_int (fst (splitSuffix x)) = Inr n1"
    and n2: "py_int (fst (splitSuffix y)) = Inr n2"
    by (cases "splitSuffix x"; cases "splitSuffix y")
      (auto simp: measureNumberComesBefore_def split: sum.splits)
  from assms(2) yz obtain n3 where n3: "py_int (fst (splitSuffix z)) = Inr n3"
    by (cases "splitSuffix y"; cases "splitSuffix z")
      (auto simp: measureNumberComesBefore_def split: sum.splits)
  show ?thesis
    using assms(1,2)
    unfolding measureNumberComesBefore_value [OF xy n1 n2]
      measureNumberComesBefore_value [OF yz n2 n3]
      measureNumberComesBefore_value [OF assms(3) n1 n3]
    by auto
qed

text \<open>
  Claim C9. \<^verbatim>\<open>measureNumberComesBefore(a, a)\<close> returns \<^verbatim>\<open>False\<close> for every string \<open>a\<close>,
  also one without leading digits; for two different strings of which at least one has
  no leading decimal digit the call raises \<^verbatim>\<open>ValueError\<close>.
\<close>

theorem measureNumberComesBefore_equal_or_malformed:
  "measureNumberComesBefore a a = Inr False \<and>
   (a \<noteq> b \<and> (leading_digits a = [] \<or> leading_digits b = []) \<longrightarrow>
      measureNumberComesBefore a b = Inl ValueError)"
  using measureNumberComesBefore_malformed [of a b]
  by (simp add: measureNumberComesBefore_def)

text \<open>
  The hypotheses of C9 at \<^verbatim>\<open>'x7'\<close> and \<^verbatim>\<open>'12'\<close>, in both orders.
\<close>

theorem measureNumberComesBefore_equal_or_malformed_witness:
  "measureNumberComesBefore ''x7'' ''x7'' = Inr False \<and>
   ''x7'' \<noteq> ''12'' \<and> leading_digits ''x7'' = [] \<and>
   measureNumberComesBefore ''x7'' ''12'' = Inl ValueError \<and>
   measureNumberComesBefore ''12'' ''x7'' = Inl ValueError"
  using measureNumberComesBefore_equal_or_malformed [of "''x7''" "''12''"]
    measureNumberComesBefore_equal_or_malformed [of "''12''" "''x7''"]
  by (simp add: leading_digits_def isdecimal_def)

text \<open>
  Claim C1 (trichotomy). The code at \<^verbatim>\<open>'01'\<close> and \<^verbatim>\<open>'1'\<close>, two different identifiers that both
  have leading digits: the numeric parts are equal as integers and both suffixes are
  empty, so the call returns \<^verbatim>\<open>True\<close> in both directions, where trichotomy allows one
  of the three alternatives only.
\<close>

theorem measureNumberComesBefore_leading_zero_both_ways:
  "''01'' \<noteq> ''1'' \<and> leading_digits ''01'' = ''01'' \<and> leading_digits ''1'' = ''1'' \<and>
   measureNumberComesBefore ''01'' ''1'' = Inr True \<and>
   measureNumberComesBefore ''1'' ''01'' = Inr True"
  by (simp add: measureNumberComesBefore_def splitSuffix_def isnumeric_def isdecimal_def
      py_int_def digit_value_def leading_digits_def)

text \<open>
  Claim C2 (transitivity). The code at \<open>x = z =\<close> \<^verbatim>\<open>'1'\<close> and \<open>y =\<close> \<^verbatim>\<open>'01'\<close>: \<open>x\<close> comes
  before \<open>y\<close> and \<open>y\<close> before \<open>z\<close>, but \<open>x\<close> does not come before \<open>z\<close>.
\<close>

theorem measureNumberComesBefore_leading_zero_cycle:
  "measureNumberComesBefore ''1'' ''01'' = Inr True \<and>
   measureNumberComesBefore ''01'' ''1'' = Inr True \<and>
   measureNumberComesBefore ''1'' ''1'' = Inr False"
  by (simp add: measureNumberComesBefore_def splitSuffix_def isnumeric_def isdecimal_def
      py_int_def digit_value_def)

section \<open>Facts about trees and dictionaries\<close>

lemma set_tail_sel [simp]:
  "tag (set_tail t e) = tag e" "attrib (set_tail t e) = attrib e"
  "elem_text (set_tail t e) = elem_text e" "tail (set_tail t e) = t"
  "children (set_tail t e) = children e"
  by (simp_all add: set_tail_def)

lemma set_tail_Element [simp]:
  "set_tail t (Element tg at tx ta cs) = Element tg at tx t cs"
  by (simp add: set_tail_def)

lemma set_tail_set_tail [simp]: "set_tail t (set_tail u e) = set_tail t e"
  by (simp add: set_tail_def)

lemma length_set_last_tail [simp]: "length (set_last_tail i cs) = length cs"
  by (induction i cs rule: set_last_tail.induct) simp_all

lemma set_last_tail_eq:
  "set_last_tail i cs = (if cs = [] then [] else butlast cs @ [set_tail (Some i) (last cs)])"
  by (induction i cs rule: set_last_tail.induct) simp_all

lemma set_last_tail_map_attrib [simp]:
  "map attrib (set_last_tail i cs) = map attrib cs"
  by (induction i cs rule: set_last_tail.induct) simp_all

lemma iter_set_tail: "iter (set_tail t e) = set_tail t e # tl (iter e)"
  by (cases e) simp

lemma attrib_iter_set_tail [simp]: "map attrib (iter (set_tail t e)) = map attrib (iter e)"
  by (cases e) simp

lemma attrib_iter_set_last_tail [simp]:
  "map attrib (concat (map iter (set_last_tail i cs))) = map attrib (concat (map iter cs))"
  by (induction i cs rule: set_last_tail.induct) simp_all

lemma attrib_iter_indent: "map attrib (iter (indent e l)) = map attrib (iter e)"
proof (induction e arbitrary: l)
  case (Element tg at tx ta cs)
  have "map attrib (concat (map iter (map (\<lambda>c. indent c (Suc l)) cs))) =
        map attrib (concat (map iter cs))"
    using Element.IH by (induction cs) simp_all
  then show ?case
    by (simp add: Let_def)
qed

lemma attrib_iter_sort_attribs:
  "map attrib (iter (sort_attribs e)) = map (\<lambda>n. sort_attrib (attrib n)) (iter e)"
proof (induction e)
  case (Element tg at tx ta cs)
  have "map attrib (concat (map iter (map sort_attribs cs))) =
        map (\<lambda>n. sort_attrib (attrib n)) (concat (map iter cs))"
    using Element.IH by (induction cs) simp_all
  then show ?case by simp
qed

lemma dict_set_fresh: "k \<notin> fst ` set d \<Longrightarrow> dict_set d k v = d @ [(k, v)]"
  by (induction d) auto

lemma dict_update_distinct:
  "distinct (map fst ps) \<Longrightarrow> fst ` set d \<inter> fst ` set ps = {} \<Longrightarrow> dict_update d ps = d @ ps"
proof (induction ps arbitrary: d)
  case Nil
  then show ?case by (simp add: dict_update_def)
next
  case (Cons p ps)
  obtain k v where p: "p = (k, v)" by (cases p)
  have fresh: "k \<notin> fst ` set d" using Cons.prems(2) p by auto
  have "dict_update d (p # ps) = dict_update (dict_set d k v) ps"
    by (simp add: dict_update_def p)
  also have "\<dots> = dict_update (d @ [(k, v)]) ps"
    using fresh by (simp add: dict_set_fresh)
  also have "\<dots> = (d @ [(k, v)]) @ ps"
  proof (rule Cons.IH)
    show "distinct (map fst ps)" using Cons.prems(1) by simp
    show "fst ` set (d @ [(k, v)]) \<inter> fst ` set ps = {}"
      using Cons.prems p by auto
  qed
  finally show ?case by (simp add: p)
qed

lemma sort_short: "length d \<le> 1 \<Longrightarrow> sort d = d"
  by (cases d) (auto simp: sorted_wrt01)

lemma sort_attrib_distinct:
  assumes "distinct (map fst d)"
  shows "sort_attrib d = sort d"
proof (cases "length d > 1")
  case True
  have "mset (map fst (sort d)) = mset (map fst d)" by simp
  then have "distinct (map fst (sort d))"
    using assms by (metis mset_eq_imp_distinct_iff)
  then have "dict_update [] (sort d) = sort d"
    using dict_update_distinct [of "sort d" "[]"] by simp
  with True show ?thesis by (simp add: sort_attrib_def)
next
  case False
  then show ?thesis by (simp add: sort_attrib_def sort_short)
qed

lemma sort_attrib_keys_sorted:
  assumes "distinct (map fst d)"
  shows "sorted_wrt (<) (map fst (sort_attrib d))"
proof -
  have "sorted (sort d)" by simp
  then have "sorted (map fst (sort d))"
    unfolding sorted_map by (rule sorted_wrt_mono_rel [rotated]) (auto simp: less_eq_prod_def)
  moreover have "distinct (map fst (sort d))"
    using assms by (metis mset_eq_imp_distinct_iff mset_map mset_sort)
  ultimately show ?thesis
    by (simp add: sort_attrib_distinct [OF assms] strict_sorted_iff)
qed

lemma sort_attrib_mset:
  assumes "mset a = mset b"
  shows "sort_attrib a = sort_attrib b"
proof -
  have "length a = length b" using assms by (rule mset_eq_length)
  moreover have "sort a = sort b"
    using assms by (metis properties_for_sort sorted_sort mset_sort)
  ultimately show ?thesis
    using sort_short [of a] sort_short [of b] by (auto simp: sort_attrib_def)
qed

lemma list_all2_set_last_tail:
  assumes "list_all2 R xs ys" and "\<And>x y. R x y \<Longrightarrow> R (set_tail (Some i) x) (set_tail (Some i) y)"
  shows "list_all2 R (set_last_tail i xs) (set_last_tail i ys)"
  using assms(1)
proof (induction xs ys rule: list_all2_induct)
  case Nil
  then show ?case by simp
next
  case (Cons x xs y ys)
  then show ?case
    using assms(2) by (cases xs; cases ys) auto
qed

lemma attrib_reordered_set_tail:
  "attrib_reordered x y \<Longrightarrow> attrib_reordered (set_tail t x) (set_tail t y)"
  by (cases x; cases y) simp

lemma attrib_reordered_indent:
  "attrib_reordered e1 e2 \<Longrightarrow> attrib_reordered (indent e1 l) (indent e2 l)"
proof (induction e1 arbitrary: e2 l)
  case (Element tg at tx ta cs)
  obtain tg' at' tx' ta' cs' where e2: "e2 = Element tg' at' tx' ta' cs'" by (cases e2)
  from Element.prems e2 have eqs: "tg = tg'" "mset at = mset at'" "tx = tx'" "ta = ta'"
    and cs: "list_all2 attrib_reordered cs cs'" by simp_all
  have len: "length cs = length cs'" using cs by (rule list_all2_lengthD)
  have "list_all2 attrib_reordered (map (\<lambda>c. indent c (Suc l)) cs) (map (\<lambda>c. indent c (Suc l)) cs')"
    using cs Element.IH by (simp add: list_all2_conv_all_nth)
  then have "list_all2 attrib_reordered
      (set_last_tail (indent_str l) (map (\<lambda>c. indent c (Suc l)) cs))
      (set_last_tail (indent_str l) (map (\<lambda>c. indent c (Suc l)) cs'))"
    by (rule list_all2_set_last_tail) (rule attrib_reordered_set_tail)
  moreover have "cs = [] \<longleftrightarrow> cs' = []" using len by auto
  ultimately show ?case
    using eqs by (simp add: e2 Let_def)
qed

lemma attrib_reordered_sort_attribs:
  "attrib_reordered e1 e2 \<Longrightarrow> sort_attribs e1 = sort_attribs e2"
proof (induction e1 arbitrary: e2)
  case (Element tg at tx ta cs)
  obtain tg' at' tx' ta' cs' where e2: "e2 = Element tg' at' tx' ta' cs'" by (cases e2)
  from Element.prems e2 have eqs: "tg = tg'" "mset at = mset at'" "tx = tx'" "ta = ta'"
    and cs: "list_all2 attrib_reordered cs cs'" by simp_all
  have "map sort_attribs cs = map sort_attribs cs'"
    using cs Element.IH by (auto simp: list_all2_conv_all_nth intro!: nth_equalityI)
  then show ?case
    using eqs by (simp add: e2 sort_attrib_mset [of at at'])
qed

lemma attrib_iter_canonical:
  "map attrib (iter (sort_attribs (indent obj l))) = map sort_attrib (map attrib (iter obj))"
proof -
  have "map attrib (iter (sort_attribs (indent obj l))) =
        map sort_attrib (map attrib (iter (indent obj l)))"
    by (simp add: attrib_iter_sort_attribs)
  then show ?thesis by (simp only: attrib_iter_indent)
qed

lemma wf_element_canonical:
  assumes "wf_element obj"
  shows "list_all (\<lambda>n. sorted_wrt (<) (map fst (attrib n))) (iter (sort_attribs (indent obj l)))"
proof -
  have "list_all (\<lambda>a. sorted_wrt (<) (map fst a)) (map sort_attrib (map attrib (iter obj)))"
    using assms by (simp add: wf_element_def list_all_iff sort_attrib_keys_sorted)
  then have "list_all (\<lambda>a. sorted_wrt (<) (map fst a))
      (map attrib (iter (sort_attribs (indent obj l))))"
    by (simp only: attrib_iter_canonical)
  then show ?thesis by (simp add: list_all_iff)
qed

lemma wf_element_canonical_mset:
  assumes "wf_element obj"
  shows "map (\<lambda>n. mset (attrib n)) (iter (sort_attribs (indent obj l))) =
         map (\<lambda>n. mset (attrib n)) (iter obj)"
proof -
  have "map mset (map sort_attrib (map attrib (iter obj))) = map mset (map attrib (iter obj))"
    using assms by (simp add: wf_element_def list_all_iff sort_attrib_distinct)
  then have "map mset (map attrib (iter (sort_attribs (indent obj l)))) =
             map mset (map attrib (iter obj))"
    by (simp only: attrib_iter_canonical)
  then show ?thesis by (simp add: comp_def)
qed

text \<open>
  Claim C3. The string \<^verbatim>\<open>dumpString\<close> returns is the serialization of a tree in which
  every node lists its attributes in strictly ascending order of attribute name (the
  same entries as in the caller's tree, whose dictionaries have distinct keys), and two
  trees that differ only in the order of their attributes give the same string.
\<close>

theorem dumpString_sorted_attributes:
  "fst (dumpString et_tostring obj noCopy) =
     rstrip (et_tostring (sort_attribs (indent obj 0))) \<and>
   (wf_element obj \<longrightarrow>
      list_all (\<lambda>n. sorted_wrt (<) (map fst (attrib n)))
        (iter (sort_attribs (indent obj 0))) \<and>
      map (\<lambda>n. mset (attrib n)) (iter (sort_attribs (indent obj 0))) =
        map (\<lambda>n. mset (attrib n)) (iter obj)) \<and>
   (attrib_reordered obj obj' \<longrightarrow>
      fst (dumpString et_tostring obj False) = fst (dumpString et_tostring obj' False))"
proof -
  have "attrib_reordered obj obj' \<Longrightarrow> sort_attribs (indent obj 0) = sort_attribs (indent obj' 0)"
    by (rule attrib_reordered_sort_attribs) (rule attrib_reordered_indent)
  then show ?thesis
    using wf_element_canonical [of obj 0] wf_element_canonical_mset [of obj 0]
    by (simp add: dumpString_def deepcopy_def Let_def)
qed

text \<open>
  The hypotheses of C3 at a tree with two nodes of two attributes each, and the same
  tree with both dictionaries filled in the other order.
\<close>

theorem dumpString_sorted_attributes_witness:
  "wf_element
     (Element ''note'' [(''b'', ''2''), (''a'', ''1'')] None None
        [Element ''pitch'' [(''z'', ''''), (''y'', ''q'')] (Some ''C'') None []]) \<and>
   attrib_reordered
     (Element ''note'' [(''b'', ''2''), (''a'', ''1'')] None None
        [Element ''pitch'' [(''z'', ''''), (''y'', ''q'')] (Some ''C'') None []])
     (Element ''note'' [(''a'', ''1''), (''b'', ''2'')] None None
        [Element ''pitch'' [(''y'', ''q''), (''z'', '''')] (Some ''C'') None []]) \<and>
   list_all (\<lambda>n. sorted_wrt (<) (map fst (attrib n)))
     (iter (sort_attribs (indent
        (Element ''note'' [(''b'', ''2''), (''a'', ''1'')] None None
           [Element ''pitch'' [(''z'', ''''), (''y'', ''q'')] (Some ''C'') None []]) 0))) \<and>
   fst (dumpString tag
     (Element ''note'' [(''b'', ''2''), (''a'', ''1'')] None None
        [Element ''pitch'' [(''z'', ''''), (''y'', ''q'')] (Some ''C'') None []]) False) =
   fst (dumpString tag
     (Element ''note'' [(''a'', ''1''), (''b'', ''2'')] None None
        [Element ''pitch'' [(''y'', ''q''), (''z'', '''')] (Some ''C'') None []]) False)"
proof -
  have w: "wf_element
     (Element ''note'' [(''b'', ''2''), (''a'', ''1'')] None None
        [Element ''pitch'' [(''z'', ''''), (''y'', ''q'')] (Some ''C'') None []])"
    by (simp add: wf_element_def)
  have r: "attrib_reordered
     (Element ''note'' [(''b'', ''2''), (''a'', ''1'')] None None
        [Element ''pitch'' [(''z'', ''''), (''y'', ''q'')] (Some ''C'') None []])
     (Element ''note'' [(''a'', ''1''), (''b'', ''2'')] None None
        [Element ''pitch'' [(''y'', ''q''), (''z'', '''')] (Some ''C'') None []])"
    by simp
  show ?thesis
    using w r dumpString_sorted_attributes
      [of tag
        "Element ''note'' [(''b'', ''2''), (''a'', ''1'')] None None
          [Element ''pitch'' [(''z'', ''''), (''y'', ''q'')] (Some ''C'') None []]"
        False
        "Element ''note'' [(''a'', ''1''), (''b'', ''2'')] None None
          [Element ''pitch'' [(''y'', ''q''), (''z'', '''')] (Some ''C'') None []]"]
    by blast
qed

section \<open>Indentation and paths\<close>

lemma set_children_sel [simp]:
  "tag (set_children cs e) = tag e" "attrib (set_children cs e) = attrib e"
  "elem_text (set_children cs e) = elem_text e" "tail (set_children cs e) = tail e"
  "children (set_children cs e) = cs"
  by (simp_all add: set_children_def)

lemma set_tail_same [simp]: "set_tail (tail e) e = e"
  by (cases e) simp

lemma set_last_tail_snoc [simp]:
  "set_last_tail i (xs @ [x]) = xs @ [set_tail (Some i) x]"
  by (induction i xs rule: set_last_tail.induct) simp_all

lemma nth_set_last_tail:
  "k < length cs \<Longrightarrow>
   set_last_tail i cs ! k = (if Suc k = length cs then set_tail (Some i) (cs ! k) else cs ! k)"
proof (induction i cs arbitrary: k rule: set_last_tail.induct)
  case (1 i)
  then show ?case by simp
next
  case (2 i subElem)
  then show ?case by simp
next
  case (3 i e v va)
  then show ?case by (cases k) simp_all
qed

lemma children_indent:
  "children e \<noteq> [] \<Longrightarrow>
   children (indent e l) =
     set_last_tail (indent_str l) (map (\<lambda>c. indent c (Suc l)) (children e))"
  by (cases e) (simp add: Let_def)

lemma length_children_indent [simp]: "length (children (indent e l)) = length (children e)"
  by (cases e) (simp add: Let_def)

lemma tail_indent_nonblank: "\<not> blank (tail e) \<Longrightarrow> tail (indent e l) = tail e"
  by (cases e) (simp add: Let_def)

lemma subtree_set_tail:
  "subtree (set_tail t e) p = (if p = [] then Some (set_tail t e) else subtree e p)"
  by (cases p) simp_all

lemma subtree_indent:
  "subtree e p = Some n \<Longrightarrow>
   \<exists>t. subtree (indent e l) p = Some (set_tail t (indent n (l + length p)))"
proof (induction p arbitrary: e l)
  case Nil
  then have "subtree (indent e l) [] = Some (set_tail (tail (indent n l)) (indent n (l + length ([]::nat list))))"
    by simp
  then show ?case by blast
next
  case (Cons k p)
  from Cons.prems have k: "k < length (children e)"
    and sub: "subtree (children e ! k) p = Some n"
    by (simp_all split: if_splits)
  from k have ne: "children e \<noteq> []" by auto
  obtain t where t: "subtree (indent (children e ! k) (Suc l)) p =
      Some (set_tail t (indent n (Suc l + length p)))"
    using Cons.IH [OF sub] by blast
  let ?c = "indent (children e ! k) (Suc l)"
  have nth: "children (indent e l) ! k =
      (if Suc k = length (children e) then set_tail (Some (indent_str l)) ?c else ?c)"
    using k by (simp add: children_indent [OF ne] nth_set_last_tail)
  show ?case
  proof (cases "Suc k = length (children e) \<and> p = []")
    case True
    with sub have "n = children e ! k" by simp
    with True nth k have "subtree (indent e l) (k # p) =
        Some (set_tail (Some (indent_str l)) (indent n (l + length (k # p))))"
      by simp
    then show ?thesis by blast
  next
    case False
    with nth k t have "subtree (indent e l) (k # p) =
        Some (set_tail t (indent n (l + length (k # p))))"
      by (auto simp: subtree_set_tail)
    then show ?thesis by blast
  qed
qed

lemma sort_attribs_sel [simp]:
  "tag (sort_attribs e) = tag e" "elem_text (sort_attribs e) = elem_text e"
  "tail (sort_attribs e) = tail e" "children (sort_attribs e) = map sort_attribs (children e)"
  by (cases e; simp)+

lemma subtree_sort_attribs:
  "subtree (sort_attribs e) p = map_option sort_attribs (subtree e p)"
  by (induction p arbitrary: e) simp_all

lemma indent_set_tail: "set_tail u (indent (set_tail t c) l) = set_tail u (indent c l)"
  by (cases c) (simp add: Let_def)

lemma list_update_last: "cs \<noteq> [] \<Longrightarrow> cs[length cs - Suc 0 := y] = butlast cs @ [y]"
  by (induction cs rule: rev_induct) simp_all

lemma set_last_tail_map_update_last:
  assumes "cs \<noteq> []"
  shows "set_last_tail i (map (\<lambda>c. indent c l) (cs[length cs - 1 := set_tail t (last cs)])) =
         set_last_tail i (map (\<lambda>c. indent c l) cs)"
proof -
  have "cs = butlast cs @ [last cs]" using assms by simp
  then have "set_last_tail i (map (\<lambda>c. indent c l) cs) =
      map (\<lambda>c. indent c l) (butlast cs) @ [set_tail (Some i) (indent (last cs) l)]"
    by (metis (no_types, lifting) list.simps(8,9) map_append set_last_tail_snoc)
  moreover have "set_last_tail i (map (\<lambda>c. indent c l) (cs[length cs - 1 := set_tail t (last cs)])) =
      map (\<lambda>c. indent c l) (butlast cs) @ [set_tail (Some i) (indent (set_tail t (last cs)) l)]"
    using assms by (simp add: list_update_last)
  ultimately show ?thesis by (simp add: indent_set_tail)
qed

lemma indent_update_last_tail:
  assumes "children e \<noteq> []"
  shows "indent (update_at (set_tail t) [length (children e) - 1] e) l = indent e l"
proof (cases e)
  case (Element tg at tx ta cs)
  with assms have ne: "cs \<noteq> []" by simp
  then have last: "cs ! (length cs - 1) = last cs" by (simp add: last_conv_nth)
  show ?thesis
    using ne last set_last_tail_map_update_last [OF ne, of "indent_str l" "Suc l" t]
    by (simp add: Element set_children_def Let_def)
qed

lemma indent_update_at_last_child:
  "subtree e p = Some n \<Longrightarrow> children n \<noteq> [] \<Longrightarrow>
   indent (update_at (set_tail t) (p @ [length (children n) - 1]) e) l = indent e l"
proof (induction p arbitrary: e l)
  case Nil
  then show ?case using indent_update_last_tail [of n t l] by simp
next
  case (Cons k p)
  from Cons.prems have k: "k < length (children e)"
    and sub: "subtree (children e ! k) p = Some n"
    by (simp_all split: if_splits)
  let ?c = "update_at (set_tail t) (p @ [length (children n) - 1]) (children e ! k)"
  have IH: "\<And>l. indent ?c l = indent (children e ! k) l"
    using Cons.IH [OF sub Cons.prems(2)] by simp
  obtain tg at tx ta cs where e: "e = Element tg at tx ta cs" by (cases e)
  have "map (\<lambda>c. indent c (Suc l)) (cs[k := ?c]) = map (\<lambda>c. indent c (Suc l)) cs"
    using IH e k by (simp add: map_update list_update_same_conv)
  then show ?case
    using k e by (simp add: set_children_def Let_def)
qed

lemma indent_children_tails:
  assumes "children n \<noteq> []"
  shows "length (children (indent n d)) = length (children n) \<and>
         tail (last (children (indent n d))) = Some (indent_str d) \<and>
         (\<forall>k. Suc k < length (children n) \<and> \<not> blank (tail (children n ! k)) \<longrightarrow>
               tail (children (indent n d) ! k) = tail (children n ! k))"
proof -
  let ?cs = "map (\<lambda>c. indent c (Suc d)) (children n)"
  have cs: "children (indent n d) = set_last_tail (indent_str d) ?cs"
    using assms by (rule children_indent)
  have "tail (last (set_last_tail (indent_str d) ?cs)) = Some (indent_str d)"
    using assms by (simp add: set_last_tail_eq)
  moreover have "tail (set_last_tail (indent_str d) ?cs ! k) = tail (children n ! k)"
    if "Suc k < length (children n)" and "\<not> blank (tail (children n ! k))" for k
    using that by (simp add: nth_set_last_tail tail_indent_nonblank)
  ultimately show ?thesis by (simp add: cs)
qed

text \<open>
  Claim C10. Let \<open>n\<close> be a node with at least one child, at path \<open>p\<close> in the tree.
  After \<^verbatim>\<open>indent\<close> (started at any level \<open>l\<close>), and so in the tree that \<^verbatim>\<open>dumpString\<close>
  leaves behind when it works in place, the last child of \<open>n\<close> has the indent string of
  the level of \<open>n\<close> as its tail, whatever its tail was, and every other child whose tail
  held text that is not blank keeps it. What \<^verbatim>\<open>dumpString\<close> returns and leaves behind does
  not depend on the tail the last child had: replacing it by any \<open>t\<close> changes nothing.
\<close>

theorem indent_overwrites_last_child_tail:
  assumes "subtree obj p = Some n" and "children n \<noteq> []"
  shows
    "(\<exists>n'. subtree (indent obj l) p = Some n' \<and>
        length (children n') = length (children n) \<and>
        tail (last (children n')) = Some (indent_str (l + length p)) \<and>
        (\<forall>k. Suc k < length (children n) \<and> \<not> blank (tail (children n ! k)) \<longrightarrow>
              tail (children n' ! k) = tail (children n ! k))) \<and>
     (\<exists>n'. subtree (snd (dumpString et_tostring obj True)) p = Some n' \<and>
        length (children n') = length (children n) \<and>
        tail (last (children n')) = Some (indent_str (length p)) \<and>
        (\<forall>k. Suc k < length (children n) \<and> \<not> blank (tail (children n ! k)) \<longrightarrow>
              tail (children n' ! k) = tail (children n ! k))) \<and>
     dumpString et_tostring
         (update_at (set_tail t) (p @ [length (children n) - 1]) obj) True =
       dumpString et_tostring obj True \<and>
     fst (dumpString et_tostring
         (update_at (set_tail t) (p @ [length (children n) - 1]) obj) False) =
       fst (dumpString et_tostring obj False)"
proof -
  have A: "\<exists>n'. subtree (indent obj l) p = Some n' \<and>
        length (children n') = length (children n) \<and>
        tail (last (children n')) = Some (indent_str (l + length p)) \<and>
        (\<forall>k. Suc k < length (children n) \<and> \<not> blank (tail (children n ! k)) \<longrightarrow>
              tail (children n' ! k) = tail (children n ! k))" for l
  proof -
    obtain u where u: "subtree (indent obj l) p = Some (set_tail u (indent n (l + length p)))"
      using subtree_indent [OF assms(1)] by blast
    show ?thesis
      using u indent_children_tails [OF assms(2), of "l + length p"] by simp
  qed
  have B: "\<exists>n'. subtree (sort_attribs (indent obj 0)) p = Some n' \<and>
        length (children n') = length (children n) \<and>
        tail (last (children n')) = Some (indent_str (length p)) \<and>
        (\<forall>k. Suc k < length (children n) \<and> \<not> blank (tail (children n ! k)) \<longrightarrow>
              tail (children n' ! k) = tail (children n ! k))"
  proof -
    obtain n' where n': "subtree (indent obj 0) p = Some n'"
        "length (children n') = length (children n)"
        "tail (last (children n')) = Some (indent_str (length p))"
        "\<forall>k. Suc k < length (children n) \<and> \<not> blank (tail (children n ! k)) \<longrightarrow>
              tail (children n' ! k) = tail (children n ! k)"
      using A [of 0] by auto
    have ne: "children n' \<noteq> []" using n'(2) assms(2) by auto
    have "subtree (sort_attribs (indent obj 0)) p = Some (sort_attribs n')"
      by (simp add: subtree_sort_attribs n'(1))
    moreover have "tail (last (children (sort_attribs n'))) = Some (indent_str (length p))"
      using ne n'(3) by (simp add: last_map)
    moreover have "\<forall>k. Suc k < length (children n) \<and> \<not> blank (tail (children n ! k)) \<longrightarrow>
              tail (children (sort_attribs n') ! k) = tail (children n ! k)"
      using n'(2,4) by simp
    ultimately show ?thesis using n'(2) by simp
  qed
  have C: "indent (update_at (set_tail t) (p @ [length (children n) - 1]) obj) 0 = indent obj 0"
    using assms by (rule indent_update_at_last_child)
  show ?thesis
    using A [of l] B C by (simp add: dumpString_def deepcopy_def Let_def)
qed

text \<open>
  The hypotheses of C10 at the inner node \<^verbatim>\<open>c\<close> of a small tree: the tail \<^verbatim>\<open>'lost'\<close> of
  its last child is replaced, the tail \<^verbatim>\<open>'x y'\<close> of its first child is kept.
\<close>

theorem indent_overwrites_last_child_tail_witness:
  "subtree
     (Element ''a'' [] None None
        [Element ''b'' [] None (Some ''keep'') [],
         Element ''c'' [] None None
           [Element ''d'' [] None (Some ''x y'') [], Element ''e'' [] None (Some ''lost'') []]])
     [1] =
     Some (Element ''c'' [] None None
           [Element ''d'' [] None (Some ''x y'') [], Element ''e'' [] None (Some ''lost'') []]) \<and>
   map tail (children (the (subtree (snd (dumpString tag
     (Element ''a'' [] None None
        [Element ''b'' [] None (Some ''keep'') [],
         Element ''c'' [] None None
           [Element ''d'' [] None (Some ''x y'') [], Element ''e'' [] None (Some ''lost'') []]])
     True)) [1]))) = [Some ''x y'', Some (indent_str 1)] \<and>
   dumpString tag
     (update_at (set_tail (Some ''other'')) [1, 1]
        (Element ''a'' [] None None
           [Element ''b'' [] None (Some ''keep'') [],
            Element ''c'' [] None None
              [Element ''d'' [] None (Some ''x y'') [], Element ''e'' [] None (Some ''lost'') []]]))
     True =
   dumpString tag
     (Element ''a'' [] None None
        [Element ''b'' [] None (Some ''keep'') [],
         Element ''c'' [] None None
           [Element ''d'' [] None (Some ''x y'') [], Element ''e'' [] None (Some ''lost'') []]])
     True"
proof -
  let ?c = "Element ''c'' [] None None
      [Element ''d'' [] None (Some ''x y'') [], Element ''e'' [] None (Some ''lost'') []]"
  let ?a = "Element ''a'' [] None None [Element ''b'' [] None (Some ''keep'') [], ?c]"
  have h1: "subtree ?a [1] = Some ?c" by simp
  have h2: "children ?c \<noteq> []" by simp
  obtain n' where n': "subtree (snd (dumpString tag ?a True)) [1] = Some n'"
      "length (children n') = length (children ?c)"
      "tail (last (children n')) = Some (indent_str (length [1::nat]))"
      "\<forall>k. Suc k < length (children ?c) \<and> \<not> blank (tail (children ?c ! k)) \<longrightarrow>
           tail (children n' ! k) = tail (children ?c ! k)"
    using indent_overwrites_last_child_tail [OF h1 h2, of 0 tag "Some ''other''"] by blast
  obtain x y where xy: "children n' = [x, y]"
    using n'(2) by (cases "children n'"; cases "tl (children n')") auto
  have "\<not> blank (tail (children ?c ! 0))"
    by (simp add: blank_def strip_def rstrip_def isspace_def)
  then have "tail x = Some ''x y''" using n'(4) xy by force
  moreover have "tail y = Some (indent_str 1)" using n'(3) xy by simp
  ultimately have tails: "map tail (children (the (subtree (snd (dumpString tag ?a True)) [1]))) =
      [Some ''x y'', Some (indent_str 1)]"
    using n'(1) xy by simp
  have "update_at (set_tail (Some ''other'')) ([1] @ [length (children ?c) - 1]) ?a =
      update_at (set_tail (Some ''other'')) [1, 1] ?a"
    by simp
  then have "dumpString tag (update_at (set_tail (Some ''other'')) [1, 1] ?a) True =
      dumpString tag ?a True"
    using indent_overwrites_last_child_tail [OF h1 h2, of 0 tag "Some ''other''"] by metis
  with h1 tails show ?thesis by blast
qed

text \<open>
  In the model on trees, the caller's tree after a call with the copy option is the tree
  before it, and the string is the same with and without a copy.
\<close>

lemma dumpString_copy_value:
  "snd (dumpString et_tostring obj False) = obj \<and>
   snd (dumpString et_tostring obj True) = sort_attribs (indent obj 0) \<and>
   fst (dumpString et_tostring obj False) = fst (dumpString et_tostring obj True)"
  by (simp add: dumpString_def deepcopy_def Let_def)

section \<open>Ordered insertion\<close>

lemma set_attrib_sel [simp]:
  "tag (set_attrib a e) = tag e" "attrib (set_attrib a e) = a"
  "elem_text (set_attrib a e) = elem_text e" "tail (set_attrib a e) = tail e"
  "children (set_attrib a e) = children e"
  by (simp_all add: set_attrib_def)

lemma insertIndices_fold:
  "fold (\<lambda>(i, child) indices. if tag child \<in> set tags then insert i indices else indices)
     (enumerate n cs) S =
   S \<union> {i. n \<le> i \<and> i < n + length cs \<and> tag (cs ! (i - n)) \<in> set tags}"
proof (induction cs arbitrary: n S)
  case Nil
  then show ?case by auto
next
  case (Cons c cs)
  have split: "{i. n \<le> i \<and> i < n + length (c # cs) \<and> tag ((c # cs) ! (i - n)) \<in> set tags} =
      (if tag c \<in> set tags then {n} else {}) \<union>
      {i. Suc n \<le> i \<and> i < Suc n + length cs \<and> tag (cs ! (i - Suc n)) \<in> set tags}"
    by (auto simp: nth_Cons' Suc_diff_Suc le_Suc_eq split: if_splits)
  show ?case
    unfolding split by (auto simp: Cons.IH)
qed

lemma insertIndices_set:
  "fold (\<lambda>(i, child) indices. if tag child \<in> set tags then insert i indices else indices)
     (enumerate 0 cs) {length cs} =
   insert (length cs) {i. i < length cs \<and> tag (cs ! i) \<in> set tags}"
  by (simp add: insertIndices_fold)

text \<open>
  Claim C4. Without a tag list, or with an empty one, \<^verbatim>\<open>insert\<close> becomes the last child.
  Otherwise it is placed at the least element of the set that holds the number of
  children and the index of every direct child whose tag is in the list. For children
  \<^verbatim>\<open>[sign, line]\<close> and the list \<^verbatim>\<open>['line']\<close> the children become
  \<^verbatim>\<open>[sign, insert, line]\<close>, and without a list \<^verbatim>\<open>[sign, line, insert]\<close>.
\<close>

theorem insertBeforeElements_position:
  "(tagList = None \<or> tagList = Some [] \<longrightarrow>
      insertBeforeElements root ins tagList = set_children (children root @ [ins]) root) \<and>
   (tagList = Some tags \<and> tags \<noteq> [] \<longrightarrow>
      insertBeforeElements root ins tagList =
        set_children
          (take (Min (insert (length (children root))
                   {i. i < length (children root) \<and> tag (children root ! i) \<in> set tags}))
             (children root) @ [ins] @
           drop (Min (insert (length (children root))
                   {i. i < length (children root) \<and> tag (children root ! i) \<in> set tags}))
             (children root)) root) \<and>
   (children root = [sign, line] \<and> tag sign = ''sign'' \<and> tag line = ''line'' \<longrightarrow>
      children (insertBeforeElements root ins (Some [''line''])) = [sign, ins, line] \<and>
      children (insertBeforeElements root ins None) = [sign, line, ins])"
proof -
  have ex: "children (insertBeforeElements root ins (Some [''line''])) = [sign, ins, line]"
    if "children root = [sign, line]" "tag sign = ''sign''" "tag line = ''line''"
    using that by (simp add: insertBeforeElements_def insert_child_def enumerate_eq_zip)
  show ?thesis
    using ex
    by (auto simp: insertBeforeElements_def append_child_def insert_child_def
        insertIndices_set Let_def)
qed

text \<open>
  The hypotheses of C4 at concrete trees. In the first the child \<^verbatim>\<open>sign\<close> has a child
  of its own with tag \<^verbatim>\<open>line\<close>, which does not count, and two children match.
\<close>

theorem insertBeforeElements_position_witness:
  "insertBeforeElements
       (Element ''clef'' [] None None
          [Element ''sign'' [] (Some ''G'') None [Element ''line'' [] None None []],
           Element ''line'' [] (Some ''4'') None [],
           Element ''line'' [] (Some ''5'') None []])
       (Element ''foo'' [] None None []) (Some [''line'']) =
     Element ''clef'' [] None None
       [Element ''sign'' [] (Some ''G'') None [Element ''line'' [] None None []],
        Element ''foo'' [] None None [],
        Element ''line'' [] (Some ''4'') None [],
        Element ''line'' [] (Some ''5'') None []] \<and>
   children (insertBeforeElements
       (Element ''clef'' [] None None
          [Element ''sign'' [] (Some ''G'') None [], Element ''line'' [] (Some ''4'') None []])
       (Element ''foo'' [] None None []) (Some [''line''])) =
     [Element ''sign'' [] (Some ''G'') None [], Element ''foo'' [] None None [],
      Element ''line'' [] (Some ''4'') None []] \<and>
   insertBeforeElements
       (Element ''clef'' [] None None
          [Element ''sign'' [] (Some ''G'') None [], Element ''line'' [] (Some ''4'') None []])
       (Element ''foo'' [] None None []) None =
     Element ''clef'' [] None None
       [Element ''sign'' [] (Some ''G'') None [], Element ''line'' [] (Some ''4'') None [],
        Element ''foo'' [] None None []]"
proof -
  let ?sign' = "Element ''sign'' [] (Some ''G'') None [Element ''line'' [] None None []]"
  let ?sign = "Element ''sign'' [] (Some ''G'') None []"
  let ?line = "Element ''line'' [] (Some ''4'') None []"
  let ?line5 = "Element ''line'' [] (Some ''5'') None []"
  let ?foo = "Element ''foo'' [] None None []"
  let ?root3 = "Element ''clef'' [] None None [?sign', ?line, ?line5]"
  let ?root2 = "Element ''clef'' [] None None [?sign, ?line]"
  have "{i. i < length (children ?root3) \<and> tag (children ?root3 ! i) \<in> set [''line'']} =
      {1, 2}"
    by (auto simp: nth_Cons' less_Suc_eq split: if_splits)
  then have m: "Min (insert (length (children ?root3))
      {i. i < length (children ?root3) \<and> tag (children ?root3 ! i) \<in> set [''line'']}) = 1"
    by simp
  have "insertBeforeElements ?root3 ?foo (Some [''line'']) =
      set_children (take 1 (children ?root3) @ [?foo] @ drop 1 (children ?root3)) ?root3"
    using insertBeforeElements_position [of "Some [''line'']" ?root3 ?foo "[''line'']"]
    unfolding m by blast
  then have a: "insertBeforeElements ?root3 ?foo (Some [''line'']) =
      Element ''clef'' [] None None [?sign', ?foo, ?line, ?line5]"
    by (simp add: set_children_def)
  have h: "children ?root2 = [?sign, ?line] \<and> tag ?sign = ''sign'' \<and> tag ?line = ''line''"
    by simp
  have b: "children (insertBeforeElements ?root2 ?foo (Some [''line''])) = [?sign, ?foo, ?line]"
    using h insertBeforeElements_position [of None ?root2 ?foo "[]" ?sign ?line] by blast
  have "insertBeforeElements ?root2 ?foo None =
      set_children (children ?root2 @ [?foo]) ?root2"
    using insertBeforeElements_position [of None ?root2 ?foo "[]" ?sign ?line] by blast
  then have c: "insertBeforeElements ?root2 ?foo None =
      Element ''clef'' [] None None [?sign, ?line, ?foo]"
    by (simp add: set_children_def)
  show ?thesis using a b c by blast
qed

section \<open>Identifier and attribute synchronization\<close>

lemma map_of_dict_set: "map_of (dict_set d k v) = (map_of d)(k \<mapsto> v)"
  by (induction d) auto

lemma el_get_el_set: "el_get (el_set e k v) k' = (if k' = k then Some v else el_get e k')"
  by (simp add: el_get_def el_set_def map_of_dict_set)

lemma el_set_frame:
  "tag (el_set e k v) = tag e \<and> elem_text (el_set e k v) = elem_text e \<and>
   tail (el_set e k v) = tail e \<and> children (el_set e k v) = children e"
  by (simp add: el_set_def)



text \<open>
  Claim C6. \<^verbatim>\<open>setXMLAttributeFromAttribute\<close> returns the element unchanged when the
  source field is absent or \<^verbatim>\<open>None\<close>. Any other value, also \<^verbatim>\<open>0\<close> and the empty
  string, is transformed (if a transform is given; its error propagates), turned into a
  string and written as the attribute, which then has that value whatever it had.
\<close>

theorem setXMLAttributeFromAttribute_skips_only_unset:
  "(m21El (case attributeName of None \<Rightarrow> hyphenToCamelCase xmlAttributeName | Some a \<Rightarrow> a) = None \<or>
    m21El (case attributeName of None \<Rightarrow> hyphenToCamelCase xmlAttributeName | Some a \<Rightarrow> a) =
      Some PyNone \<longrightarrow>
      setXMLAttributeFromAttribute hyphenToCamelCase m21El xmlEl xmlAttributeName attributeName
        transform = Inr xmlEl) \<and>
   (m21El (case attributeName of None \<Rightarrow> hyphenToCamelCase xmlAttributeName | Some a \<Rightarrow> a) =
      Some v \<and> v \<noteq> PyNone \<longrightarrow>
      setXMLAttributeFromAttribute hyphenToCamelCase m21El xmlEl xmlAttributeName attributeName
        transform =
        (case transform of
           None \<Rightarrow> Inr (el_set xmlEl xmlAttributeName (py_str v))
         | Some f \<Rightarrow>
             (case f v of
                Inl e \<Rightarrow> Inl e
              | Inr v' \<Rightarrow> Inr (el_set xmlEl xmlAttributeName (py_str v'))))) \<and>
   (m21El (case attributeName of None \<Rightarrow> hyphenToCamelCase xmlAttributeName | Some a \<Rightarrow> a) =
      Some (PyInt 0) \<longrightarrow>
      setXMLAttributeFromAttribute hyphenToCamelCase m21El xmlEl xmlAttributeName attributeName
        None = Inr (el_set xmlEl xmlAttributeName ''0'')) \<and>
   (m21El (case attributeName of None \<Rightarrow> hyphenToCamelCase xmlAttributeName | Some a \<Rightarrow> a) =
      Some (PyStr '''') \<longrightarrow>
      setXMLAttributeFromAttribute hyphenToCamelCase m21El xmlEl xmlAttributeName attributeName
        None = Inr (el_set xmlEl xmlAttributeName '''')) \<and>
   el_get (el_set xmlEl xmlAttributeName x) xmlAttributeName = Some x"
  by (auto simp: setXMLAttributeFromAttribute_def Let_def el_get_el_set py_str_def
      split: option.splits sum.splits)

text \<open>
  The hypotheses of C6 at an element whose attribute is \<^verbatim>\<open>'7'\<close>: the values \<^verbatim>\<open>0\<close>
  and \<^verbatim>\<open>''\<close> overwrite it, \<^verbatim>\<open>None\<close> does not, a transformed value is written.
\<close>

theorem setXMLAttributeFromAttribute_skips_only_unset_witness:
  "setXMLAttributeFromAttribute (\<lambda>s. s) [''pageNumber'' \<mapsto> PyInt 0]
     (Element ''page-layout'' [(''page-number'', ''7'')] None None []) ''page-number''
     (Some ''pageNumber'') None =
     Inr (Element ''page-layout'' [(''page-number'', ''0'')] None None []) \<and>
   setXMLAttributeFromAttribute (\<lambda>s. s) [''pageNumber'' \<mapsto> PyStr '''']
     (Element ''page-layout'' [(''page-number'', ''7'')] None None []) ''page-number''
     (Some ''pageNumber'') None =
     Inr (Element ''page-layout'' [(''page-number'', '''')] None None []) \<and>
   setXMLAttributeFromAttribute (\<lambda>s. s) [''pageNumber'' \<mapsto> PyNone]
     (Element ''page-layout'' [(''page-number'', ''7'')] None None []) ''page-number''
     (Some ''pageNumber'') None =
     Inr (Element ''page-layout'' [(''page-number'', ''7'')] None None []) \<and>
   setXMLAttributeFromAttribute (\<lambda>s. s) [''pageNumber'' \<mapsto> PyBool True]
     (Element ''page-layout'' [(''page-number'', ''7'')] None None []) ''page-number''
     (Some ''pageNumber'') (Some (\<lambda>v. Inr (PyInt 12))) =
     Inr (Element ''page-layout'' [(''page-number'', ''12'')] None None [])"
proof -
  let ?e = "Element ''page-layout'' [(''page-number'', ''7'')] None None []"
  have a: "setXMLAttributeFromAttribute (\<lambda>s. s) [''pageNumber'' \<mapsto> PyInt 0] ?e
      ''page-number'' (Some ''pageNumber'') None = Inr (el_set ?e ''page-number'' ''0'')"
    using setXMLAttributeFromAttribute_skips_only_unset
      [where m21El = "[''pageNumber'' \<mapsto> PyInt 0]" and attributeName = "Some ''pageNumber''"
        and hyphenToCamelCase = "\<lambda>s. s" and xmlAttributeName = "''page-number''"
        and xmlEl = ?e and transform = "None" and v = "PyInt 0"]
    by (simp add: py_str_def)
  have b: "setXMLAttributeFromAttribute (\<lambda>s. s) [''pageNumber'' \<mapsto> PyStr ''''] ?e
      ''page-number'' (Some ''pageNumber'') None = Inr (el_set ?e ''page-number'' '''')"
    using setXMLAttributeFromAttribute_skips_only_unset
      [where m21El = "[''pageNumber'' \<mapsto> PyStr '''']" and attributeName = "Some ''pageNumber''"
        and hyphenToCamelCase = "\<lambda>s. s" and xmlAttributeName = "''page-number''"
        and xmlEl = ?e and transform = "None" and v = "PyStr ''''"]
    by (simp add: py_str_def)
  have c: "setXMLAttributeFromAttribute (\<lambda>s. s) [''pageNumber'' \<mapsto> PyNone] ?e
      ''page-number'' (Some ''pageNumber'') None = Inr ?e"
    using setXMLAttributeFromAttribute_skips_only_unset
      [where m21El = "[''pageNumber'' \<mapsto> PyNone]" and attributeName = "Some ''pageNumber''"
        and hyphenToCamelCase = "\<lambda>s. s" and xmlAttributeName = "''page-number''"
        and xmlEl = ?e and transform = "None" and v = "PyNone"]
    by simp
  have d: "setXMLAttributeFromAttribute (\<lambda>s. s) [''pageNumber'' \<mapsto> PyBool True] ?e
      ''page-number'' (Some ''pageNumber'') (Some (\<lambda>v. Inr (PyInt 12))) =
      Inr (el_set ?e ''page-number'' (py_str (PyInt 12)))"
    using setXMLAttributeFromAttribute_skips_only_unset
      [where m21El = "[''pageNumber'' \<mapsto> PyBool True]" and attributeName = "Some ''pageNumber''"
        and hyphenToCamelCase = "\<lambda>s. s" and xmlAttributeName = "''page-number''"
        and xmlEl = ?e and transform = "Some (\<lambda>v. Inr (PyInt 12))" and v = "PyBool True"]
    by (simp add: py_str_def)
  show ?thesis
    unfolding a b c d by (simp add: el_set_def set_attrib_def py_str_def)
qed

text \<open>
  Claim C7. When the element has no attribute of the given name,
  \<^verbatim>\<open>setM21AttributeFromAttribute\<close> returns the object as it was, every field included.
  When the attribute is present, also with the empty string as value, the target field
  is set to the (transformed) value.
\<close>

theorem setM21AttributeFromAttribute_absent_noop:
  "(el_get xmlEl xmlAttributeName = None \<longrightarrow>
      setM21AttributeFromAttribute hyphenToCamelCase m21El xmlEl xmlAttributeName attributeName
        transform = Inr m21El) \<and>
   (el_get xmlEl xmlAttributeName = Some v \<longrightarrow>
      setM21AttributeFromAttribute hyphenToCamelCase m21El xmlEl xmlAttributeName attributeName
        transform =
        (case (case transform of None \<Rightarrow> Inr (PyStr v) | Some f \<Rightarrow> f v) of
           Inl e \<Rightarrow> Inl e
         | Inr v' \<Rightarrow>
             Inr (m21El
               ((case attributeName of None \<Rightarrow> hyphenToCamelCase xmlAttributeName | Some a \<Rightarrow> a)
                  \<mapsto> v')))) \<and>
   (el_get xmlEl xmlAttributeName = Some '''' \<longrightarrow>
      setM21AttributeFromAttribute hyphenToCamelCase m21El xmlEl xmlAttributeName
        (Some target) None = Inr (m21El(target \<mapsto> PyStr '''')))"
  by (auto simp: setM21AttributeFromAttribute_def Let_def split: option.splits sum.splits)

text \<open>
  The hypotheses of C7: an absent attribute leaves the field at \<^verbatim>\<open>3\<close>, a present empty
  attribute sets the field to the empty string.
\<close>

theorem setM21AttributeFromAttribute_absent_noop_witness:
  "setM21AttributeFromAttribute (\<lambda>s. s) [''pageNumber'' \<mapsto> PyInt 3]
     (Element ''page-layout'' [(''new-page'', '''')] None None []) ''page-number''
     (Some ''pageNumber'') None = Inr [''pageNumber'' \<mapsto> PyInt 3] \<and>
   setM21AttributeFromAttribute (\<lambda>s. s) [''isNew'' \<mapsto> PyInt 3]
     (Element ''page-layout'' [(''new-page'', '''')] None None []) ''new-page''
     (Some ''isNew'') None = Inr [''isNew'' \<mapsto> PyStr '''']"
proof -
  let ?e = "Element ''page-layout'' [(''new-page'', '''')] None None []"
  have absent: "el_get ?e ''page-number'' = None" by (simp add: el_get_def)
  have present: "el_get ?e ''new-page'' = Some ''''" by (simp add: el_get_def)
  have a: "setM21AttributeFromAttribute (\<lambda>s. s) [''pageNumber'' \<mapsto> PyInt 3] ?e
      ''page-number'' (Some ''pageNumber'') None = Inr [''pageNumber'' \<mapsto> PyInt 3]"
    using absent setM21AttributeFromAttribute_absent_noop
      [of ?e "''page-number''" "\<lambda>s. s" "[''pageNumber'' \<mapsto> PyInt 3]" "Some ''pageNumber''" None]
    by blast
  have b: "setM21AttributeFromAttribute (\<lambda>s. s) [''isNew'' \<mapsto> PyInt 3] ?e
      ''new-page'' (Some ''isNew'') None = Inr ([''isNew'' \<mapsto> PyInt 3](''isNew'' \<mapsto> PyStr ''''))"
    using present setM21AttributeFromAttribute_absent_noop
      [of ?e "''new-page''" "\<lambda>s. s" "[''isNew'' \<mapsto> PyInt 3]" "Some ''isNew''" None "''''"
        "''isNew''"]
    by blast
  show ?thesis
    unfolding a b by simp
qed

section \<open>The store: what a call changes and what it leaves\<close>

lemma put_simps [simp]:
  "alloc (put_text h a t) = alloc h" "alloc (put_tail h a t) = alloc h"
  "alloc (put_attrib h a d) = alloc h"
  "n_children (cells (put_text h a t) b) = n_children (cells h b)"
  "n_children (cells (put_tail h a t) b) = n_children (cells h b)"
  "n_children (cells (put_attrib h a d) b) = n_children (cells h b)"
  "b \<noteq> a \<Longrightarrow> cells (put_text h a t) b = cells h b"
  "b \<noteq> a \<Longrightarrow> cells (put_tail h a t) b = cells h b"
  "b \<noteq> a \<Longrightarrow> cells (put_attrib h a d) b = cells h b"
  by (simp_all add: put_text_def put_tail_def put_attrib_def)

lemma same_shape_refl [simp]: "same_shape h h"
  by (simp add: same_shape_def)

lemma same_shape_trans: "same_shape h h' \<Longrightarrow> same_shape h' h'' \<Longrightarrow> same_shape h h''"
  by (simp add: same_shape_def)

lemma same_shape_put [simp]:
  "same_shape h (put_text h a t)" "same_shape h (put_tail h a t)" "same_shape h (put_attrib h a d)"
  by (simp_all add: same_shape_def)

lemma frame_refl [simp]: "frame n h h"
  by (simp add: frame_def)

lemma frame_trans: "frame n h h' \<Longrightarrow> frame n h' h'' \<Longrightarrow> frame n h h''"
  by (simp add: frame_def)

lemma frame_put:
  "n \<le> a \<Longrightarrow> frame n h (put_text h a t)" "n \<le> a \<Longrightarrow> frame n h (put_tail h a t)"
  "n \<le> a \<Longrightarrow> frame n h (put_attrib h a d)"
  by (simp_all add: frame_def)

lemma extends_refl [simp]: "extends h h"
  by (simp add: extends_def)

lemma extends_trans: "extends h h' \<Longrightarrow> extends h' h'' \<Longrightarrow> extends h h''"
  by (auto simp: extends_def frame_def)

lemma extends_new_node: "extends h (fst (new_node h n))"
  by (simp add: extends_def frame_def new_node_def)

lemma tree_in_same_shape: "same_shape h h' \<Longrightarrow> tree_in d n h' a = tree_in d n h a"
  by (induction d arbitrary: a) (auto simp: same_shape_def list_all_iff)

lemma tree_in_extends: "tree_in d n h a \<Longrightarrow> extends h h' \<Longrightarrow> tree_in d n h' a"
  by (induction d arbitrary: a) (auto simp: extends_def frame_def list_all_iff)

lemma tree_in_mono: "tree_in d n h a \<Longrightarrow> m \<le> n \<Longrightarrow> tree_in d m h a"
  by (induction d arbitrary: a) (auto simp: list_all_iff)

lemma tree_in_ge: "tree_in d n h a \<Longrightarrow> n \<le> a"
  by (cases d) simp_all

lemma opt_fold_inv:
  assumes "opt_fold f xs s = Some s'" and "I s"
    and "\<And>x s s'. x \<in> set xs \<Longrightarrow> I s \<Longrightarrow> f x s = Some s' \<Longrightarrow> I s'"
  shows "I s'"
  using assms
proof (induction xs arbitrary: s)
  case Nil
  then show ?case by simp
next
  case (Cons x xs)
  from Cons.prems(1) obtain s1 where s1: "f x s = Some s1" and rest: "opt_fold f xs s1 = Some s'"
    by (auto split: option.splits)
  have s1I: "I s1" using Cons.prems(3) [of x s s1] Cons.prems(2) s1 by simp
  show ?case
  proof (rule Cons.IH [OF rest s1I])
    fix y t t'
    assume "y \<in> set xs" "I t" "f y t = Some t'"
    then show "I t'" using Cons.prems(3) [of y t t'] by simp
  qed
qed

lemma opt_fold_total:
  assumes "I s" and "\<And>x s. x \<in> set xs \<Longrightarrow> I s \<Longrightarrow> \<exists>s'. f x s = Some s' \<and> I s'"
  shows "\<exists>s'. opt_fold f xs s = Some s' \<and> I s'"
  using assms
proof (induction xs arbitrary: s)
  case Nil
  then show ?case by simp
next
  case (Cons x xs)
  obtain s1 where s1: "f x s = Some s1" "I s1" using Cons.prems by force
  show ?case using Cons.IH [OF s1(2)] Cons.prems(2) s1(1) by simp
qed

lemma deepcopy_h_fresh:
  "deepcopy_h fuel h a = Some (h', a') \<Longrightarrow> extends h h' \<and> tree_in fuel (alloc h) h' a'"
proof (induction fuel arbitrary: h a h' a')
  case 0
  then show ?case by simp
next
  case (Suc fuel)
  let ?step = "\<lambda>c (h, cs). case deepcopy_h fuel h c of
                            None \<Rightarrow> None
                          | Some (h', c') \<Rightarrow> Some (h', cs @ [c'])"
  let ?I = "\<lambda>(hk, csk). extends h hk \<and> list_all (tree_in fuel (alloc h) hk) csk"
  from Suc.prems obtain h1 cs' where
    loop: "opt_fold ?step (n_children (cells h a)) (h, []) = Some (h1, cs')"
    and res: "(h', a') = new_node h1 ((cells h a)\<lparr>n_children := cs'\<rparr>)"
    by (auto split: option.splits)
  have inv: "?I (h1, cs')"
  proof (rule opt_fold_inv [OF loop, where I = ?I])
    show "?I (h, [])" by simp
  next
    fix c s s'
    assume I: "?I s" and step: "?step c s = Some s'"
    obtain hk csk where s: "s = (hk, csk)" by (cases s)
    from step s obtain hk' c' where cp: "deepcopy_h fuel hk c = Some (hk', c')"
      and s': "s' = (hk', csk @ [c'])"
      by (auto split: option.splits)
    from Suc.IH [OF cp] have ext: "extends hk hk'" and fr: "tree_in fuel (alloc hk) hk' c'"
      by simp_all
    from I s have hhk: "extends h hk" and old: "list_all (tree_in fuel (alloc h) hk) csk"
      by simp_all
    have "alloc h \<le> alloc hk" using hhk by (simp add: extends_def)
    then have "tree_in fuel (alloc h) hk' c'" using fr by (rule tree_in_mono [rotated])
    moreover have "list_all (tree_in fuel (alloc h) hk') csk"
      using old ext by (auto simp: list_all_iff intro: tree_in_extends)
    ultimately show "?I s'"
      using s' extends_trans [OF hhk ext] by simp
  qed
  then have hh1: "extends h h1" and kids: "list_all (tree_in fuel (alloc h) h1) cs'"
    by simp_all
  from res have h': "h' = fst (new_node h1 ((cells h a)\<lparr>n_children := cs'\<rparr>))"
    and a': "a' = alloc h1"
    by (simp_all add: new_node_def)
  have e1: "extends h1 h'" unfolding h' by (rule extends_new_node)
  have "list_all (tree_in fuel (alloc h) h') cs'"
    using kids e1 by (auto simp: list_all_iff intro: tree_in_extends)
  moreover have "n_children (cells h' a') = cs'" "alloc h' = Suc (alloc h1)"
    by (simp_all add: h' a' new_node_def)
  moreover have "alloc h \<le> alloc h1" using hh1 by (simp add: extends_def)
  ultimately have "tree_in (Suc fuel) (alloc h) h' a'"
    by (simp add: a')
  then show ?case using extends_trans [OF hh1 e1] by simp
qed

lemma deepcopy_h_total:
  "tree_in d n h a \<Longrightarrow> \<exists>r. deepcopy_h d h a = Some r"
proof (induction d arbitrary: h a)
  case 0
  then show ?case by simp
next
  case (Suc d)
  let ?step = "\<lambda>c (h, cs). case deepcopy_h d h c of
                            None \<Rightarrow> None
                          | Some (h', c') \<Rightarrow> Some (h', cs @ [c'])"
  let ?I = "\<lambda>(hk, csk :: nat list). extends h hk"
  have "\<exists>s'. opt_fold ?step (n_children (cells h a)) (h, []) = Some s' \<and> ?I s'"
  proof (rule opt_fold_total [where I = ?I])
    show "?I (h, [])" by simp
  next
    fix c s
    assume c: "c \<in> set (n_children (cells h a))" and I: "?I s"
    obtain hk csk where s: "s = (hk, csk)" by (cases s)
    from Suc.prems c have "tree_in d n h c" by (simp add: list_all_iff)
    then have "tree_in d n hk c" using I s by (auto intro: tree_in_extends)
    then obtain hk' c' where cp: "deepcopy_h d hk c = Some (hk', c')"
      using Suc.IH by fastforce
    then have "extends hk hk'" using deepcopy_h_fresh by blast
    then show "\<exists>s'. ?step c s = Some s' \<and> ?I s'"
      using cp s I by (auto intro: extends_trans)
  qed
  then show ?case by (auto simp: new_node_def)
qed


lemma indent_h_Suc:
  "indent_h (Suc fuel) h a l =
     (if n_children (cells h a) = []
      then Some (if l \<noteq> 0 \<and> blank (n_tail (cells h a)) then put_tail h a (Some (indent_str l)) else h)
      else (case opt_fold (\<lambda>c h. indent_h fuel h c (l + 1)) (n_children (cells h a))
                   (indent_pre h a l) of
              None \<Rightarrow> None
            | Some h3 \<Rightarrow> Some (indent_post h3 a l)))"
  by (simp add: Let_def indent_pre_def indent_post_def split: option.split)

lemma indent_h_0 [simp]: "indent_h 0 h a l = None"
  by simp

declare indent_h.simps [simp del]

lemma indent_pre_shape [simp]: "same_shape h (indent_pre h a l)"
  by (simp add: indent_pre_def Let_def same_shape_def)

lemma indent_post_shape [simp]: "same_shape h (indent_post h a l)"
  by (simp add: indent_post_def Let_def same_shape_def)

lemma indent_pre_frame: "n \<le> a \<Longrightarrow> frame n h (indent_pre h a l)"
  by (simp add: indent_pre_def Let_def frame_def)

lemma indent_post_frame:
  "n \<le> a \<Longrightarrow> n \<le> last (n_children (cells h a)) \<Longrightarrow> frame n h (indent_post h a l)"
  by (simp add: indent_post_def Let_def frame_def)

lemma same_shape_children: "same_shape h h' \<Longrightarrow> n_children (cells h' a) = n_children (cells h a)"
  by (simp add: same_shape_def)

lemma indent_h_same_shape:
  "indent_h fuel h a l = Some h' \<Longrightarrow> same_shape h h'"
proof (induction fuel arbitrary: h a l h')
  case 0
  then show ?case by simp
next
  case (Suc fuel)
  show ?case
  proof (cases "n_children (cells h a) = []")
    case True
    with Suc.prems show ?thesis by (auto simp: indent_h_Suc)
  next
    case False
    with Suc.prems obtain h3 where
      loop: "opt_fold (\<lambda>c h. indent_h fuel h c (l + 1)) (n_children (cells h a))
               (indent_pre h a l) = Some h3"
      and h': "h' = indent_post h3 a l"
      by (auto simp: indent_h_Suc split: option.splits)
    have "same_shape h h3"
      by (rule opt_fold_inv [OF loop, where I = "same_shape h"])
        (auto dest: Suc.IH intro: same_shape_trans)
    then show ?thesis
      unfolding h' by (rule same_shape_trans) simp
  qed
qed


lemma indent_h_frame:
  "indent_h fuel h a l = Some h' \<Longrightarrow> tree_in fuel n h a \<Longrightarrow> frame n h h'"
proof (induction fuel arbitrary: h a l h')
  case 0
  then show ?case by simp
next
  case (Suc fuel)
  from Suc.prems(2) have na: "n \<le> a"
    and kids: "list_all (tree_in fuel n h) (n_children (cells h a))"
    by simp_all
  show ?case
  proof (cases "n_children (cells h a) = []")
    case True
    with Suc.prems(1) na show ?thesis by (auto simp: indent_h_Suc frame_put)
  next
    case False
    with Suc.prems(1) obtain h3 where
      loop: "opt_fold (\<lambda>c h. indent_h fuel h c (l + 1)) (n_children (cells h a))
               (indent_pre h a l) = Some h3"
      and h': "h' = indent_post h3 a l"
      by (auto simp: indent_h_Suc split: option.splits)
    have inv: "same_shape h hk' \<and> frame n h hk'"
      if I: "same_shape h hk \<and> frame n h hk" and run: "indent_h fuel hk c (l + 1) = Some hk'"
        and c: "c \<in> set (n_children (cells h a))" for hk hk' c
    proof -
      from c kids have "tree_in fuel n h c" by (simp add: list_all_iff)
      then have "tree_in fuel n hk c" using I tree_in_same_shape by blast
      then have "frame n hk hk'" using Suc.IH [OF run] by simp
      moreover have "same_shape hk hk'" using run by (rule indent_h_same_shape)
      ultimately show ?thesis using I by (auto intro: same_shape_trans frame_trans)
    qed
    have "same_shape h h3 \<and> frame n h h3"
    proof (rule opt_fold_inv [OF loop, where I = "\<lambda>hk. same_shape h hk \<and> frame n h hk"])
      show "same_shape h (indent_pre h a l) \<and> frame n h (indent_pre h a l)"
        using na by (simp add: indent_pre_frame)
    next
      fix c hk hk'
      assume "c \<in> set (n_children (cells h a))" "same_shape h hk \<and> frame n h hk"
        "indent_h fuel hk c (l + 1) = Some hk'"
      then show "same_shape h hk' \<and> frame n h hk'" using inv [of hk c hk'] by blast
    qed
    then have s3: "same_shape h h3" and f3: "frame n h h3" by simp_all
    have cs3: "n_children (cells h3 a) = n_children (cells h a)"
      using s3 by (rule same_shape_children)
    have "last (n_children (cells h a)) \<in> set (n_children (cells h a))"
      using False by simp
    then have "tree_in fuel n h (last (n_children (cells h a)))"
      using kids by (simp add: list_all_iff)
    then have nl: "n \<le> last (n_children (cells h3 a))"
      using cs3 tree_in_ge by simp
    show ?thesis
      unfolding h' using f3 indent_post_frame [OF na nl] by (rule frame_trans)
  qed
qed

lemma indent_h_total:
  "tree_in d n h a \<Longrightarrow> \<exists>h'. indent_h d h a l = Some h'"
proof (induction d arbitrary: h a l)
  case 0
  then show ?case by simp
next
  case (Suc d)
  from Suc.prems have kids: "list_all (tree_in d n h) (n_children (cells h a))"
    by simp
  have "\<exists>h3. opt_fold (\<lambda>c h. indent_h d h c (l + 1)) (n_children (cells h a))
        (indent_pre h a l) = Some h3 \<and> same_shape h h3"
  proof (rule opt_fold_total [where I = "same_shape h"])
    show "same_shape h (indent_pre h a l)" by simp
  next
    fix c hk
    assume c: "c \<in> set (n_children (cells h a))" and I: "same_shape h hk"
    from c kids have "tree_in d n h c" by (simp add: list_all_iff)
    then have "tree_in d n hk c" using I tree_in_same_shape by blast
    then obtain hk' where run: "indent_h d hk c (l + 1) = Some hk'"
      using Suc.IH by blast
    then have "same_shape hk hk'" by (rule indent_h_same_shape)
    then show "\<exists>s'. indent_h d hk c (l + 1) = Some s' \<and> same_shape h s'"
      using run I by (auto intro: same_shape_trans)
  qed
  then show ?case
    by (auto simp: indent_h_Suc)
qed

lemma sort_attribs_h_same_shape:
  "sort_attribs_h fuel h a = Some h' \<Longrightarrow> same_shape h h'"
proof (induction fuel arbitrary: h a h')
  case 0
  then show ?case by simp
next
  case (Suc fuel)
  let ?h1 = "put_attrib h a (sort_attrib (n_attrib (cells h a)))"
  from Suc.prems have
    loop: "opt_fold (\<lambda>c h. sort_attribs_h fuel h c) (n_children (cells h a)) ?h1 = Some h'"
    by (simp add: Let_def)
  show ?case
    by (rule opt_fold_inv [OF loop, where I = "same_shape h"])
      (auto dest: Suc.IH intro: same_shape_trans)
qed

lemma sort_attribs_h_frame:
  "sort_attribs_h fuel h a = Some h' \<Longrightarrow> tree_in fuel n h a \<Longrightarrow> frame n h h'"
proof (induction fuel arbitrary: h a h')
  case 0
  then show ?case by simp
next
  case (Suc fuel)
  let ?h1 = "put_attrib h a (sort_attrib (n_attrib (cells h a)))"
  from Suc.prems(2) have na: "n \<le> a"
    and kids: "list_all (tree_in fuel n h) (n_children (cells h a))"
    by simp_all
  from Suc.prems(1) have
    loop: "opt_fold (\<lambda>c h. sort_attribs_h fuel h c) (n_children (cells h a)) ?h1 = Some h'"
    by (simp add: Let_def)
  have inv: "same_shape h hk' \<and> frame n h hk'"
    if I: "same_shape h hk \<and> frame n h hk" and run: "sort_attribs_h fuel hk c = Some hk'"
      and c: "c \<in> set (n_children (cells h a))" for hk hk' c
  proof -
    from c kids have "tree_in fuel n h c" by (simp add: list_all_iff)
    then have "tree_in fuel n hk c" using I tree_in_same_shape by blast
    then have "frame n hk hk'" using Suc.IH [OF run] by simp
    moreover have "same_shape hk hk'" using run by (rule sort_attribs_h_same_shape)
    ultimately show ?thesis using I by (auto intro: same_shape_trans frame_trans)
  qed
  have "same_shape h h' \<and> frame n h h'"
  proof (rule opt_fold_inv [OF loop, where I = "\<lambda>hk. same_shape h hk \<and> frame n h hk"])
    show "same_shape h ?h1 \<and> frame n h ?h1"
      using na by (simp add: frame_put)
  next
    fix c hk hk'
    assume "c \<in> set (n_children (cells h a))" "same_shape h hk \<and> frame n h hk"
      "sort_attribs_h fuel hk c = Some hk'"
    then show "same_shape h hk' \<and> frame n h hk'" using inv [of hk c hk'] by blast
  qed
  then show ?case by simp
qed

lemma sort_attribs_h_total:
  "tree_in d n h a \<Longrightarrow> \<exists>h'. sort_attribs_h d h a = Some h'"
proof (induction d arbitrary: h a)
  case 0
  then show ?case by simp
next
  case (Suc d)
  let ?h1 = "put_attrib h a (sort_attrib (n_attrib (cells h a)))"
  from Suc.prems have kids: "list_all (tree_in d n h) (n_children (cells h a))"
    by simp
  have "\<exists>h3. opt_fold (\<lambda>c h. sort_attribs_h d h c) (n_children (cells h a)) ?h1 = Some h3 \<and>
      same_shape h h3"
  proof (rule opt_fold_total [where I = "same_shape h"])
    show "same_shape h ?h1" by simp
  next
    fix c hk
    assume c: "c \<in> set (n_children (cells h a))" and I: "same_shape h hk"
    from c kids have "tree_in d n h c" by (simp add: list_all_iff)
    then have "tree_in d n hk c" using I tree_in_same_shape by blast
    then obtain hk' where run: "sort_attribs_h d hk c = Some hk'"
      using Suc.IH by blast
    then have "same_shape hk hk'" by (rule sort_attribs_h_same_shape)
    then show "\<exists>s'. sort_attribs_h d hk c = Some s' \<and> same_shape h s'"
      using run I by (auto intro: same_shape_trans)
  qed
  then show ?case
    by (auto simp: Let_def)
qed

lemma those_map_Some:
  "(\<And>x. x \<in> set xs \<Longrightarrow> f x = Some (g x)) \<Longrightarrow> those (map f xs) = Some (map g xs)"
  by (induction xs) simp_all

lemma addrs_same_shape: "same_shape h h' \<Longrightarrow> addrs d h' a = addrs d h a"
proof (induction d arbitrary: a)
  case 0
  then show ?case by simp
next
  case (Suc d)
  then have m: "map (addrs d h') (n_children (cells h a)) = map (addrs d h) (n_children (cells h a))"
    by simp
  have c: "n_children (cells h' a) = n_children (cells h a)"
    using Suc.prems by (rule same_shape_children)
  show ?case by (simp only: addrs.simps c m)
qed

lemma same_cells_load_addrs:
  "(\<And>b. b \<in> set (addrs d h a) \<Longrightarrow> cells h' b = cells h b) \<Longrightarrow>
   load d h' a = load d h a \<and> addrs d h' a = addrs d h a"
proof (induction d arbitrary: a)
  case 0
  then show ?case by simp
next
  case (Suc d)
  have a: "cells h' a = cells h a" using Suc.prems by simp
  have "load d h' c = load d h c \<and> addrs d h' c = addrs d h c"
    if "c \<in> set (n_children (cells h a))" for c
    using that Suc.prems by (intro Suc.IH) auto
  then have m: "map (load d h') (n_children (cells h a)) = map (load d h) (n_children (cells h a))"
    "map (addrs d h') (n_children (cells h a)) = map (addrs d h) (n_children (cells h a))"
    by simp_all
  show ?case by (simp only: load.simps addrs.simps a m)
qed

lemma same_cells_load:
  "(\<And>b. b \<in> set (addrs d h a) \<Longrightarrow> cells h' b = cells h b) \<Longrightarrow> load d h' a = load d h a"
  using same_cells_load_addrs by blast

lemma tree_in_load: "tree_in d n h a \<Longrightarrow> \<exists>t. load d h a = Some t"
proof (induction d arbitrary: a)
  case 0
  then show ?case by simp
next
  case (Suc d)
  then have "\<And>c. c \<in> set (n_children (cells h a)) \<Longrightarrow> load d h c = Some (the (load d h c))"
    by (fastforce simp: list_all_iff)
  then have "those (map (load d h) (n_children (cells h a))) =
      Some (map (\<lambda>c. the (load d h c)) (n_children (cells h a)))"
    by (rule those_map_Some)
  then show ?case by simp
qed

lemma load_Suc:
  assumes "tree_in (Suc d) n h a"
  shows "load (Suc d) h a =
     Some (Element (n_tag (cells h a)) (n_attrib (cells h a)) (n_text (cells h a))
             (n_tail (cells h a)) (map (\<lambda>c. the (load d h c)) (n_children (cells h a))))"
proof -
  from assms have "\<And>c. c \<in> set (n_children (cells h a)) \<Longrightarrow> load d h c = Some (the (load d h c))"
    using tree_in_load by (fastforce simp: list_all_iff)
  then have "those (map (load d h) (n_children (cells h a))) =
      Some (map (\<lambda>c. the (load d h c)) (n_children (cells h a)))"
    by (rule those_map_Some)
  then show ?thesis by simp
qed

declare load.simps(2) [simp del]

lemma addrs_hd: "tree_in d n h a \<Longrightarrow> a \<in> set (addrs d h a)"
  by (cases d) simp_all

lemma load_put_tail_root:
  assumes "tree_in d n h a" and "distinct (addrs d h a)"
  shows "load d (put_tail h a x) a = Some (set_tail x (the (load d h a)))"
proof (cases d)
  case 0
  with assms show ?thesis by simp
next
  case (Suc d')
  have kids: "load d' (put_tail h a x) c = load d' h c"
    if "c \<in> set (n_children (cells h a))" for c
  proof (rule same_cells_load)
    fix b assume "b \<in> set (addrs d' h c)"
    then have "b \<noteq> a" using assms(2) that Suc by auto
    then show "cells (put_tail h a x) b = cells h b" by simp
  qed
  have sh: "same_shape h (put_tail h a x)" by simp
  have t: "tree_in (Suc d') n h a" using assms(1) Suc by simp
  have t': "tree_in (Suc d') n (put_tail h a x) a"
    using t tree_in_same_shape [OF sh] by blast
  have m: "map (\<lambda>c. the (load d' (put_tail h a x) c)) (n_children (cells h a)) =
      map (\<lambda>c. the (load d' h c)) (n_children (cells h a))"
    using kids by simp
  have c: "cells (put_tail h a x) a = (cells h a)\<lparr>n_tail := x\<rparr>"
    by (simp add: put_tail_def)
  show ?thesis
    unfolding Suc load_Suc [OF t'] load_Suc [OF t] c by (simp add: m)
qed

lemma opt_fold_children_refine:
  assumes step: "\<And>h c h'. tree_in d n h c \<Longrightarrow> distinct (addrs d h c) \<Longrightarrow> run h c = Some h' \<Longrightarrow>
      same_shape h h' \<and> load d h' c = Some (g (the (load d h c))) \<and>
      (\<forall>b. b \<notin> set (addrs d h c) \<longrightarrow> cells h' b = cells h b)"
  shows "list_all (tree_in d n h) cs \<Longrightarrow> distinct (concat (map (addrs d h) cs)) \<Longrightarrow>
      opt_fold (\<lambda>c h. run h c) cs h = Some h' \<Longrightarrow>
      same_shape h h' \<and>
      (\<forall>c\<in>set cs. load d h' c = Some (g (the (load d h c)))) \<and>
      (\<forall>b. b \<notin> set (concat (map (addrs d h) cs)) \<longrightarrow> cells h' b = cells h b)"
proof (induction cs arbitrary: h)
  case Nil
  then show ?case by simp
next
  case (Cons c rest)
  from Cons.prems(3) obtain hk where run: "run h c = Some hk"
    and loop: "opt_fold (\<lambda>c h. run h c) rest hk = Some h'"
    by (auto split: option.splits)
  from Cons.prems(1) have tc: "tree_in d n h c" and trest: "list_all (tree_in d n h) rest"
    by simp_all
  from Cons.prems(2) have dc: "distinct (addrs d h c)"
    and drest: "distinct (concat (map (addrs d h) rest))"
    and disj: "set (addrs d h c) \<inter> set (concat (map (addrs d h) rest)) = {}"
    by simp_all
  from step [OF tc dc run] have sk: "same_shape h hk"
    and lk: "load d hk c = Some (g (the (load d h c)))"
    and fk: "\<And>b. b \<notin> set (addrs d h c) \<Longrightarrow> cells hk b = cells h b"
    by simp_all
  have ak: "addrs d hk = addrs d h"
    by (rule ext) (rule addrs_same_shape [OF sk])
  have trest': "list_all (tree_in d n hk) rest"
    using trest tree_in_same_shape [OF sk] by (simp add: list_all_iff)
  have drest': "distinct (concat (map (addrs d hk) rest))"
    using drest by (simp add: ak)
  from Cons.IH [OF trest' drest' loop] have s': "same_shape hk h'"
    and l': "\<And>x. x \<in> set rest \<Longrightarrow> load d h' x = Some (g (the (load d hk x)))"
    and f': "\<And>b. b \<notin> set (concat (map (addrs d h) rest)) \<Longrightarrow> cells h' b = cells hk b"
    by (simp_all add: ak)
  have "load d h' c = load d hk c"
  proof (rule same_cells_load)
    fix b assume "b \<in> set (addrs d hk c)"
    then have "b \<notin> set (concat (map (addrs d h) rest))" using disj ak by auto
    then show "cells h' b = cells hk b" by (rule f')
  qed
  then have c1: "load d h' c = Some (g (the (load d h c)))" using lk by simp
  have c2: "load d h' x = Some (g (the (load d h x)))" if x: "x \<in> set rest" for x
  proof -
    have "load d hk x = load d h x"
    proof (rule same_cells_load)
      fix b assume "b \<in> set (addrs d h x)"
      then have "b \<notin> set (addrs d h c)" using disj x by auto
      then show "cells hk b = cells h b" by (rule fk)
    qed
    then show ?thesis using l' [OF x] by simp
  qed
  have c3: "cells h' b = cells h b" if "b \<notin> set (concat (map (addrs d h) (c # rest)))" for b
    using that f' [of b] fk [of b] by simp
  show ?case
    using same_shape_trans [OF sk s'] c1 c2 c3 by auto
qed

lemma indent_post_cells:
  assumes "last (n_children (cells h a)) \<noteq> a"
  shows "cells (indent_post h a l) a =
           (cells h a)\<lparr>n_tail := (if blank (n_tail (cells h a)) then Some (indent_str l)
                                    else n_tail (cells h a))\<rparr>"
    and "b \<noteq> a \<Longrightarrow> b \<noteq> last (n_children (cells h a)) \<Longrightarrow> cells (indent_post h a l) b = cells h b"
    and "b \<noteq> a \<Longrightarrow> cells (indent_post h a l) b =
           cells (put_tail h (last (n_children (cells h a))) (Some (indent_str l))) b"
  using assms by (auto simp: indent_post_def Let_def put_tail_def indent_str_def)

lemma indent_pre_cells:
  "cells (indent_pre h a l) a =
     (cells h a)\<lparr>n_text := (if blank (n_text (cells h a)) then Some (indent_str l @ ''  '')
                              else n_text (cells h a)),
                  n_tail := (if blank (n_tail (cells h a)) then Some (indent_str l)
                             else n_tail (cells h a))\<rparr>"
  "b \<noteq> a \<Longrightarrow> cells (indent_pre h a l) b = cells h b"
  by (auto simp: indent_pre_def Let_def put_tail_def put_text_def)

lemma indent_h_refines:
  "tree_in d n h a \<Longrightarrow> distinct (addrs d h a) \<Longrightarrow> indent_h d h a l = Some h' \<Longrightarrow>
   load d h' a = Some (indent (the (load d h a)) l) \<and>
   (\<forall>b. b \<notin> set (addrs d h a) \<longrightarrow> cells h' b = cells h b)"
proof (induction d arbitrary: h a l h')
  case 0
  then show ?case by simp
next
  case (Suc d)
  let ?cs = "n_children (cells h a)"
  let ?i = "indent_str l"
  note t = Suc.prems(1)
  have sh: "same_shape h h'" using Suc.prems(3) by (rule indent_h_same_shape)
  have t': "tree_in (Suc d) n h' a" using t tree_in_same_shape [OF sh] by blast
  have cs': "n_children (cells h' a) = ?cs" using sh by (rule same_shape_children)
  from t have kids: "list_all (tree_in d n h) ?cs" by simp
  from Suc.prems(2) have anot: "a \<notin> set (concat (map (addrs d h) ?cs))"
    and dcs: "distinct (concat (map (addrs d h) ?cs))"
    by simp_all
  show ?case
  proof (cases "?cs = []")
    case True
    with Suc.prems(3) have h': "h' = (if l \<noteq> 0 \<and> blank (n_tail (cells h a))
        then put_tail h a (Some ?i) else h)"
      by (simp add: indent_h_Suc)
    have "load (Suc d) h' a = Some (indent (the (load (Suc d) h a)) l)"
      unfolding load_Suc [OF t'] load_Suc [OF t] cs'
      using True by (simp add: h' put_tail_def Let_def)
    moreover have "\<forall>b. b \<notin> set (addrs (Suc d) h a) \<longrightarrow> cells h' b = cells h b"
      by (simp add: h')
    ultimately show ?thesis by blast
  next
    case False
    with Suc.prems(3) obtain h3 where
      loop: "opt_fold (\<lambda>c h. indent_h d h c (l + 1)) ?cs (indent_pre h a l) = Some h3"
      and h': "h' = indent_post h3 a l"
      by (auto simp: indent_h_Suc split: option.splits)
    let ?h2 = "indent_pre h a l"
    have s2: "same_shape h ?h2" by simp
    have a2: "addrs d ?h2 = addrs d h"
      by (rule ext) (rule addrs_same_shape [OF s2])
    have kids2: "list_all (tree_in d n ?h2) ?cs"
      using kids tree_in_same_shape [OF s2] by (simp add: list_all_iff)
    have dcs2: "distinct (concat (map (addrs d ?h2) ?cs))"
      using dcs by (simp add: a2)
    have step: "same_shape hh hh' \<and> load d hh' c = Some (indent (the (load d hh c)) (l + 1)) \<and>
        (\<forall>b. b \<notin> set (addrs d hh c) \<longrightarrow> cells hh' b = cells hh b)"
      if "tree_in d n hh c" "distinct (addrs d hh c)" "indent_h d hh c (l + 1) = Some hh'"
      for hh c hh'
      using Suc.IH [OF that] indent_h_same_shape [OF that(3)] by simp
    have res: "same_shape ?h2 h3 \<and>
        (\<forall>c\<in>set ?cs. load d h3 c = Some (indent (the (load d ?h2 c)) (l + 1))) \<and>
        (\<forall>b. b \<notin> set (concat (map (addrs d ?h2) ?cs)) \<longrightarrow> cells h3 b = cells ?h2 b)"
      by (rule opt_fold_children_refine
          [where run = "\<lambda>h c. indent_h d h c (l + 1)" and g = "\<lambda>t. indent t (l + 1)",
            OF step kids2 dcs2 loop])
    then have s3: "same_shape ?h2 h3"
      and l3: "\<And>c. c \<in> set ?cs \<Longrightarrow> load d h3 c = Some (indent (the (load d ?h2 c)) (l + 1))"
      and f3: "\<And>b. b \<notin> set (concat (map (addrs d h) ?cs)) \<Longrightarrow> cells h3 b = cells ?h2 b"
      by (simp_all add: a2)
    have sh3: "same_shape h h3" using s2 s3 by (rule same_shape_trans)
    have a3: "addrs d h3 = addrs d h"
      by (rule ext) (rule addrs_same_shape [OF sh3])
    have cs3: "n_children (cells h3 a) = ?cs" using sh3 by (rule same_shape_children)
    have l2: "load d ?h2 c = load d h c" if "c \<in> set ?cs" for c
    proof (rule same_cells_load)
      fix b assume "b \<in> set (addrs d h c)"
      then have "b \<noteq> a" using anot that by auto
      then show "cells ?h2 b = cells h b" by (rule indent_pre_cells(2))
    qed
    have l3': "load d h3 c = Some (indent (the (load d h c)) (l + 1))" if "c \<in> set ?cs" for c
      using l3 [OF that] l2 [OF that] by simp
    have cell_a3: "cells h3 a = cells ?h2 a" using anot by (rule f3)
    \<comment> \<open>the last child\<close>
    define lc where "lc = last ?cs"
    define bl where "bl = butlast ?cs"
    have split: "?cs = bl @ [lc]" using False by (simp add: lc_def bl_def)
    have lc_in: "lc \<in> set ?cs" using False by (simp add: lc_def)
    have tlc: "tree_in d n h lc" using kids lc_in by (simp add: list_all_iff)
    have lc_addr: "lc \<in> set (addrs d h lc)" using tlc by (rule addrs_hd)
    have lc_ne: "lc \<noteq> a" using anot lc_in lc_addr by auto
    have dlc: "distinct (addrs d h lc)"
      and dis: "set (concat (map (addrs d h) bl)) \<inter> set (addrs d h lc) = {}"
      using dcs unfolding split by simp_all
    have last3: "last (n_children (cells h3 a)) = lc" by (simp add: cs3 lc_def)
    have lc_ne3: "last (n_children (cells h3 a)) \<noteq> a" using last3 lc_ne by simp
    \<comment> \<open>children other than the last\<close>
    have lb: "load d h' c = Some (indent (the (load d h c)) (l + 1))" if c: "c \<in> set bl" for c
    proof -
      have cin: "c \<in> set ?cs" using c split by simp
      have "load d h' c = load d h3 c"
      proof (rule same_cells_load)
        fix b assume b: "b \<in> set (addrs d h3 c)"
        then have b': "b \<in> set (addrs d h c)" by (simp add: a3)
        then have "b \<noteq> a" using anot cin by auto
        moreover have "b \<noteq> lc" using b' c dis lc_addr by auto
        ultimately show "cells h' b = cells h3 b"
          unfolding h' using indent_post_cells(2) [OF lc_ne3] last3 by simp
      qed
      then show ?thesis using l3' [OF cin] by simp
    qed
    \<comment> \<open>the last child gets the tail\<close>
    let ?h4 = "put_tail h3 lc (Some ?i)"
    have ll: "load d h' lc = Some (set_tail (Some ?i) (indent (the (load d h lc)) (l + 1)))"
    proof -
      have tlc3: "tree_in d n h3 lc" using tlc tree_in_same_shape [OF sh3] by blast
      have dlc3: "distinct (addrs d h3 lc)" using dlc by (simp add: a3)
      have "load d h' lc = load d ?h4 lc"
      proof (rule same_cells_load)
        fix b assume "b \<in> set (addrs d ?h4 lc)"
        then have "b \<in> set (addrs d h lc)"
          using addrs_same_shape [of h3 ?h4 d lc] by (simp add: a3)
        then have "b \<noteq> a" using anot lc_in by auto
        then show "cells h' b = cells ?h4 b"
          unfolding h' using indent_post_cells(3) [OF lc_ne3] last3 by simp
      qed
      also have "\<dots> = Some (set_tail (Some ?i) (the (load d h3 lc)))"
        using tlc3 dlc3 by (rule load_put_tail_root)
      finally show ?thesis using l3' [OF lc_in] by simp
    qed
    have kids_val: "map (\<lambda>c. the (load d h' c)) ?cs =
        set_last_tail ?i (map (\<lambda>s. indent s (l + 1)) (map (\<lambda>c. the (load d h c)) ?cs))"
      unfolding split using lb ll by simp
    have cell_a': "cells h' a =
        (cells ?h2 a)\<lparr>n_tail := (if blank (n_tail (cells ?h2 a)) then Some ?i
                                    else n_tail (cells ?h2 a))\<rparr>"
      unfolding h' using indent_post_cells(1) [OF lc_ne3] cell_a3 by simp
    have "load (Suc d) h' a = Some (indent (the (load (Suc d) h a)) l)"
      unfolding load_Suc [OF t'] load_Suc [OF t] cs' cell_a' indent_pre_cells(1)
      using False kids_val by (simp add: Let_def indent_str_def)
    moreover have "cells h' b = cells h b" if b: "b \<notin> set (addrs (Suc d) h a)" for b
    proof -
      from b have ba: "b \<noteq> a" and bk: "b \<notin> set (concat (map (addrs d h) ?cs))"
        by simp_all
      have "b \<noteq> lc" using bk lc_in lc_addr by auto
      then have "cells h' b = cells h3 b"
        unfolding h' using indent_post_cells(2) [OF lc_ne3] last3 ba by simp
      also have "\<dots> = cells ?h2 b" using bk by (rule f3)
      also have "\<dots> = cells h b" using ba by (rule indent_pre_cells(2))
      finally show ?thesis .
    qed
    ultimately show ?thesis by blast
  qed
qed

lemma sort_attribs_h_refines:
  "tree_in d n h a \<Longrightarrow> distinct (addrs d h a) \<Longrightarrow> sort_attribs_h d h a = Some h' \<Longrightarrow>
   load d h' a = Some (sort_attribs (the (load d h a))) \<and>
   (\<forall>b. b \<notin> set (addrs d h a) \<longrightarrow> cells h' b = cells h b)"
proof (induction d arbitrary: h a h')
  case 0
  then show ?case by simp
next
  case (Suc d)
  let ?cs = "n_children (cells h a)"
  let ?h1 = "put_attrib h a (sort_attrib (n_attrib (cells h a)))"
  note t = Suc.prems(1)
  have sh: "same_shape h h'" using Suc.prems(3) by (rule sort_attribs_h_same_shape)
  have t': "tree_in (Suc d) n h' a" using t tree_in_same_shape [OF sh] by blast
  have cs': "n_children (cells h' a) = ?cs" using sh by (rule same_shape_children)
  from t have kids: "list_all (tree_in d n h) ?cs" by simp
  from Suc.prems(2) have anot: "a \<notin> set (concat (map (addrs d h) ?cs))"
    and dcs: "distinct (concat (map (addrs d h) ?cs))"
    by simp_all
  from Suc.prems(3) have
    loop: "opt_fold (\<lambda>c h. sort_attribs_h d h c) ?cs ?h1 = Some h'"
    by (simp add: Let_def)
  have s1: "same_shape h ?h1" by simp
  have a1: "addrs d ?h1 = addrs d h"
    by (rule ext) (rule addrs_same_shape [OF s1])
  have kids1: "list_all (tree_in d n ?h1) ?cs"
    using kids tree_in_same_shape [OF s1] by (simp add: list_all_iff)
  have dcs1: "distinct (concat (map (addrs d ?h1) ?cs))"
    using dcs by (simp add: a1)
  have step: "same_shape hh hh' \<and> load d hh' c = Some (sort_attribs (the (load d hh c))) \<and>
      (\<forall>b. b \<notin> set (addrs d hh c) \<longrightarrow> cells hh' b = cells hh b)"
    if "tree_in d n hh c" "distinct (addrs d hh c)" "sort_attribs_h d hh c = Some hh'"
    for hh c hh'
    using Suc.IH [OF that] sort_attribs_h_same_shape [OF that(3)] by simp
  have res: "same_shape ?h1 h' \<and>
      (\<forall>c\<in>set ?cs. load d h' c = Some (sort_attribs (the (load d ?h1 c)))) \<and>
      (\<forall>b. b \<notin> set (concat (map (addrs d ?h1) ?cs)) \<longrightarrow> cells h' b = cells ?h1 b)"
    by (rule opt_fold_children_refine
        [where run = "\<lambda>h c. sort_attribs_h d h c" and g = sort_attribs,
          OF step kids1 dcs1 loop])
  then have l3: "\<And>c. c \<in> set ?cs \<Longrightarrow> load d h' c = Some (sort_attribs (the (load d ?h1 c)))"
    and f3: "\<And>b. b \<notin> set (concat (map (addrs d h) ?cs)) \<Longrightarrow> cells h' b = cells ?h1 b"
    by (simp_all add: a1)
  have l1: "load d ?h1 c = load d h c" if "c \<in> set ?cs" for c
  proof (rule same_cells_load)
    fix b assume "b \<in> set (addrs d h c)"
    then have "b \<noteq> a" using anot that by auto
    then show "cells ?h1 b = cells h b" by simp
  qed
  have kids_val: "map (\<lambda>c. the (load d h' c)) ?cs =
      map sort_attribs (map (\<lambda>c. the (load d h c)) ?cs)"
    using l3 l1 by simp
  have cell_a': "cells h' a = (cells h a)\<lparr>n_attrib := sort_attrib (n_attrib (cells h a))\<rparr>"
    using f3 [OF anot] by (simp add: put_attrib_def)
  have "load (Suc d) h' a = Some (sort_attribs (the (load (Suc d) h a)))"
    unfolding load_Suc [OF t'] load_Suc [OF t] cs' cell_a'
    using kids_val by simp
  moreover have "cells h' b = cells h b" if b: "b \<notin> set (addrs (Suc d) h a)" for b
    using b f3 [of b] by simp
  ultimately show ?case by blast
qed

lemma tree_in_addrs_bounds: "tree_in d n h a \<Longrightarrow> set (addrs d h a) \<subseteq> {n..<alloc h}"
proof (induction d arbitrary: a)
  case 0
  then show ?case by simp
next
  case (Suc d)
  then show ?case by (fastforce simp: list_all_iff)
qed

lemma extends_load_addrs:
  assumes "tree_in d n h a" and "extends h h'"
  shows "load d h' a = load d h a" and "addrs d h' a = addrs d h a"
proof -
  have "cells h' b = cells h b" if "b \<in> set (addrs d h a)" for b
    using that tree_in_addrs_bounds [OF assms(1)] assms(2)
    by (auto simp: extends_def frame_def)
  then show "load d h' a = load d h a" and "addrs d h' a = addrs d h a"
    using same_cells_load_addrs [of d h a h'] by blast+
qed

lemma copy_loop:
  assumes cp: "\<And>h c h' c'. tree_in d n h c \<Longrightarrow> deepcopy_h d h c = Some (h', c') \<Longrightarrow>
      load d h' c' = load d h c \<and> distinct (addrs d h' c')"
  shows "list_all (tree_in d n h0) cs \<Longrightarrow> extends h0 h \<Longrightarrow>
      opt_fold (\<lambda>c (h, cs). case deepcopy_h d h c of
                               None \<Rightarrow> None
                             | Some (h', c') \<Rightarrow> Some (h', cs @ [c'])) cs (h, acc) = Some (h', acc') \<Longrightarrow>
      extends h h' \<and>
      (\<exists>new. acc' = acc @ new \<and> list_all (tree_in d (alloc h) h') new \<and>
         distinct (concat (map (addrs d h') new)) \<and>
         map (load d h') new = map (load d h0) cs)"
proof (induction cs arbitrary: h acc)
  case Nil
  then show ?case by simp
next
  case (Cons c rest)
  let ?step = "\<lambda>c (h, cs). case deepcopy_h d h c of
                               None \<Rightarrow> None
                             | Some (h', c') \<Rightarrow> Some (h', cs @ [c'])"
  from Cons.prems(3) obtain hk c' where run: "deepcopy_h d h c = Some (hk, c')"
    and loop: "opt_fold ?step rest (hk, acc @ [c']) = Some (h', acc')"
    by (auto split: option.splits)
  from Cons.prems(1) have tc0: "tree_in d n h0 c" and trest: "list_all (tree_in d n h0) rest"
    by simp_all
  have tc: "tree_in d n h c" using tc0 Cons.prems(2) by (rule tree_in_extends)
  from deepcopy_h_fresh [OF run] have ek: "extends h hk" and fk: "tree_in d (alloc h) hk c'"
    by simp_all
  from cp [OF tc run] have lk: "load d hk c' = load d h c" and dk: "distinct (addrs d hk c')"
    by simp_all
  have l0: "load d h c = load d h0 c" using tc0 Cons.prems(2) by (rule extends_load_addrs)
  have e0k: "extends h0 hk" using Cons.prems(2) ek by (rule extends_trans)
  from Cons.IH [OF trest e0k loop] obtain new' where ek': "extends hk h'"
    and acc': "acc' = (acc @ [c']) @ new'"
    and tn: "list_all (tree_in d (alloc hk) h') new'"
    and dn: "distinct (concat (map (addrs d h') new'))"
    and ln: "map (load d h') new' = map (load d h0) rest"
    by blast
  have le: "alloc h \<le> alloc hk" using ek by (simp add: extends_def)
  have t1: "tree_in d (alloc h) h' c'" using fk ek' by (rule tree_in_extends)
  have t2: "list_all (tree_in d (alloc h) h') new'"
    using tn le by (auto simp: list_all_iff intro: tree_in_mono)
  have a1: "addrs d h' c' = addrs d hk c'" using fk ek' by (rule extends_load_addrs)
  have b1: "set (addrs d hk c') \<subseteq> {alloc h..<alloc hk}" using fk by (rule tree_in_addrs_bounds)
  have b2: "set (concat (map (addrs d h') new')) \<subseteq> {alloc hk..<alloc h'}"
    using tn tree_in_addrs_bounds by (fastforce simp: list_all_iff)
  have "set (addrs d h' c') \<inter> set (concat (map (addrs d h') new')) = {}"
    using b1 b2 a1 by fastforce
  then have d1: "distinct (concat (map (addrs d h') (c' # new')))"
    using dk dn a1 by simp
  have "load d h' c' = load d hk c'" using fk ek' by (rule extends_load_addrs)
  then have l1: "map (load d h') (c' # new') = map (load d h0) (c # rest)"
    using lk l0 ln by simp
  have "acc' = acc @ (c' # new') \<and> list_all (tree_in d (alloc h) h') (c' # new') \<and>
      distinct (concat (map (addrs d h') (c' # new'))) \<and>
      map (load d h') (c' # new') = map (load d h0) (c # rest)"
    using acc' t1 t2 d1 l1 by simp
  then have "\<exists>new. acc' = acc @ new \<and> list_all (tree_in d (alloc h) h') new \<and>
      distinct (concat (map (addrs d h') new)) \<and>
      map (load d h') new = map (load d h0) (c # rest)"
    by (rule exI)
  then show ?case
    using extends_trans [OF ek ek'] by simp
qed

lemma deepcopy_h_copy:
  "tree_in fuel n h a \<Longrightarrow> deepcopy_h fuel h a = Some (h', a') \<Longrightarrow>
   load fuel h' a' = load fuel h a \<and> distinct (addrs fuel h' a')"
proof (induction fuel arbitrary: h a h' a')
  case 0
  then show ?case by simp
next
  case (Suc fuel)
  let ?cs = "n_children (cells h a)"
  let ?step = "\<lambda>c (h, cs). case deepcopy_h fuel h c of
                               None \<Rightarrow> None
                             | Some (h', c') \<Rightarrow> Some (h', cs @ [c'])"
  from Suc.prems(2) obtain h1 cs' where
    loop: "opt_fold ?step ?cs (h, []) = Some (h1, cs')"
    and res: "(h', a') = new_node h1 ((cells h a)\<lparr>n_children := cs'\<rparr>)"
    by (auto split: option.splits)
  from Suc.prems(1) have kids: "list_all (tree_in fuel n h) ?cs" by simp
  have "extends h h1 \<and>
      (\<exists>new. cs' = [] @ new \<and> list_all (tree_in fuel (alloc h) h1) new \<and>
         distinct (concat (map (addrs fuel h1) new)) \<and>
         map (load fuel h1) new = map (load fuel h) ?cs)"
    by (rule copy_loop [OF Suc.IH kids extends_refl loop])
  then have e1: "extends h h1" and t1: "list_all (tree_in fuel (alloc h) h1) cs'"
    and d1: "distinct (concat (map (addrs fuel h1) cs'))"
    and l1: "map (load fuel h1) cs' = map (load fuel h) ?cs"
    by simp_all
  from res have h': "h' = fst (new_node h1 ((cells h a)\<lparr>n_children := cs'\<rparr>))"
    and a': "a' = alloc h1"
    by (simp_all add: new_node_def)
  have e': "extends h1 h'" unfolding h' by (rule extends_new_node)
  have cell: "cells h' a' = (cells h a)\<lparr>n_children := cs'\<rparr>"
    by (simp add: h' a' new_node_def)
  have same: "load fuel h' c = load fuel h1 c \<and> addrs fuel h' c = addrs fuel h1 c"
    if "c \<in> set cs'" for c
    using that t1 extends_load_addrs [OF _ e'] by (auto simp: list_all_iff)
  then have ml: "map (load fuel h') cs' = map (load fuel h) ?cs"
    and ma: "map (addrs fuel h') cs' = map (addrs fuel h1) cs'"
    using l1 by (simp_all cong: map_cong)
  have "load (Suc fuel) h' a' = load (Suc fuel) h a"
    by (simp add: load.simps(2) cell ml)
  moreover have ad: "addrs (Suc fuel) h' a' = a' # concat (map (addrs fuel h1) cs')"
    unfolding addrs.simps cell by (simp add: ma)
  have "set (concat (map (addrs fuel h1) cs')) \<subseteq> {alloc h..<alloc h1}"
    using t1 tree_in_addrs_bounds by (fastforce simp: list_all_iff)
  then have "a' \<notin> set (concat (map (addrs fuel h1) cs'))"
    unfolding a' by auto
  then have "distinct (addrs (Suc fuel) h' a')"
    unfolding ad using d1 by simp
  ultimately show ?case by simp
qed

lemma dumpString_h_run:
  assumes x: "tree_in d n h1 x"
  shows "\<exists>h2 h3 t. indent_h d h1 x 0 = Some h2 \<and> sort_attribs_h d h2 x = Some h3 \<and>
           load d h3 x = Some t \<and> same_shape h1 h3 \<and> frame n h1 h3 \<and>
           (distinct (addrs d h1 x) \<longrightarrow>
              t = sort_attribs (indent (the (load d h1 x)) 0) \<and>
              (\<forall>b. b \<notin> set (addrs d h1 x) \<longrightarrow> cells h3 b = cells h1 b))"
proof -
  obtain h2 where ind: "indent_h d h1 x 0 = Some h2"
    using indent_h_total [OF x] by blast
  have s2: "same_shape h1 h2" using ind by (rule indent_h_same_shape)
  have f2: "frame n h1 h2" using ind x by (rule indent_h_frame)
  have t2: "tree_in d n h2 x" using x s2 tree_in_same_shape by blast
  have a2: "addrs d h2 x = addrs d h1 x" using s2 by (rule addrs_same_shape)
  obtain h3 where srt: "sort_attribs_h d h2 x = Some h3"
    using sort_attribs_h_total [OF t2] by blast
  have s3: "same_shape h2 h3" using srt by (rule sort_attribs_h_same_shape)
  have f3: "frame n h2 h3" using srt t2 by (rule sort_attribs_h_frame)
  have t3: "tree_in d n h3 x" using t2 s3 tree_in_same_shape by blast
  obtain t where t: "load d h3 x = Some t" using tree_in_load [OF t3] by blast
  have "t = sort_attribs (indent (the (load d h1 x)) 0) \<and>
        (\<forall>b. b \<notin> set (addrs d h1 x) \<longrightarrow> cells h3 b = cells h1 b)"
    if dist: "distinct (addrs d h1 x)"
  proof -
    from indent_h_refines [OF x dist ind]
    have l2: "load d h2 x = Some (indent (the (load d h1 x)) 0)"
      and c2: "\<And>b. b \<notin> set (addrs d h1 x) \<Longrightarrow> cells h2 b = cells h1 b"
      by simp_all
    have dist2: "distinct (addrs d h2 x)" using dist a2 by simp
    from sort_attribs_h_refines [OF t2 dist2 srt]
    have l3: "load d h3 x = Some (sort_attribs (the (load d h2 x)))"
      and c3: "\<And>b. b \<notin> set (addrs d h1 x) \<Longrightarrow> cells h3 b = cells h2 b"
      by (simp_all add: a2)
    show ?thesis using t l2 l3 c2 c3 by simp
  qed
  then show ?thesis
    using ind srt t same_shape_trans [OF s2 s3] frame_trans [OF f2 f3] by blast
qed

text \<open>
  Claim C8. Let the caller's tree at \<open>obj\<close> be a tree of depth at most \<open>d\<close> whose nodes
  are in use. Then \<^verbatim>\<open>dumpString\<close> with the copy option (\<^verbatim>\<open>noCopy\<close> false) returns, and
  in the store it leaves every cell that was in use is as it was: tag, attributes, text,
  tail and children of every node of the caller's tree. The tree read at \<open>obj\<close> after the
  call is the tree read before it.
\<close>

theorem dumpString_h_copy_leaves_tree_unchanged:
  assumes "tree_in d 0 h obj"
  shows "\<exists>xStr h'. dumpString_h d et_tostring h obj False = Some (xStr, h') \<and>
           (\<forall>a<alloc h. cells h' a = cells h a) \<and>
           load d h' obj = load d h obj \<and> load d h obj \<noteq> None"
proof -
  obtain h1 x where cp: "deepcopy_h d h obj = Some (h1, x)"
    using deepcopy_h_total [OF assms] by fastforce
  then have e1: "extends h h1" and t1: "tree_in d (alloc h) h1 x"
    using deepcopy_h_fresh by blast+
  obtain h2 h3 t where run: "indent_h d h1 x 0 = Some h2" "sort_attribs_h d h2 x = Some h3"
      "load d h3 x = Some t" and s3: "same_shape h1 h3" and f3: "frame (alloc h) h1 h3"
    using dumpString_h_run [OF t1] by blast
  have res: "dumpString_h d et_tostring h obj False = Some (rstrip (et_tostring t), h3)"
    by (simp add: dumpString_h_def cp run)
  have e3: "extends h h3"
    using e1 s3 f3 by (auto simp: extends_def same_shape_def frame_def)
  then have fr: "\<forall>a<alloc h. cells h3 a = cells h a"
    by (simp add: extends_def frame_def)
  have "load d h3 obj = load d h obj" using assms e3 by (rule extends_load_addrs)
  moreover have "load d h obj \<noteq> None" using tree_in_load [OF assms] by auto
  ultimately show ?thesis using res fr by blast
qed

text \<open>
  The hypothesis of C8 at a store of three nodes: the root \<^verbatim>\<open>a\<close> at address 0 with the
  children \<^verbatim>\<open>b\<close> and \<^verbatim>\<open>c\<close> at 1 and 2.
\<close>

theorem dumpString_h_copy_leaves_tree_unchanged_witness:
  "tree_in 2 0
     \<lparr>cells = (\<lambda>a. if a = 0
                  then \<lparr>n_tag = ''a'', n_attrib = [], n_text = None, n_tail = None,
                        n_children = [1, 2]\<rparr>
                  else \<lparr>n_tag = (if a = 1 then ''b'' else ''c''), n_attrib = [], n_text = None,
                        n_tail = Some ''t'', n_children = []\<rparr>),
      alloc = 3\<rparr> 0 \<and>
   (\<exists>xStr h'.
      dumpString_h 2 tag
        \<lparr>cells = (\<lambda>a. if a = 0
                     then \<lparr>n_tag = ''a'', n_attrib = [], n_text = None, n_tail = None,
                           n_children = [1, 2]\<rparr>
                     else \<lparr>n_tag = (if a = 1 then ''b'' else ''c''), n_attrib = [],
                           n_text = None, n_tail = Some ''t'', n_children = []\<rparr>),
         alloc = 3\<rparr> 0 False = Some (xStr, h') \<and>
      load 2 h' 0 =
        Some (Element ''a'' [] None None
                [Element ''b'' [] None (Some ''t'') [], Element ''c'' [] None (Some ''t'') []]))"
proof -
  let ?h = "\<lparr>cells = (\<lambda>a. if a = 0
                  then \<lparr>n_tag = ''a'', n_attrib = [], n_text = None, n_tail = None,
                        n_children = [1, 2]\<rparr>
                  else \<lparr>n_tag = (if a = 1 then ''b'' else ''c''), n_attrib = [], n_text = None,
                        n_tail = Some ''t'', n_children = []\<rparr>),
      alloc = 3\<rparr>"
  have t: "tree_in 2 0 ?h 0"
    by (simp add: numeral_2_eq_2)
  have l: "load 2 ?h 0 =
      Some (Element ''a'' [] None None
              [Element ''b'' [] None (Some ''t'') [], Element ''c'' [] None (Some ''t'') []])"
    by (simp add: numeral_2_eq_2 load.simps(2))
  show ?thesis
    using t l dumpString_h_copy_leaves_tree_unchanged [OF t, of tag] by metis
qed

text \<open>
  The model on trees is the model on the store seen through \<open>load\<close>, for a tree no
  node of which is reachable twice: the string is the one \<open>dumpString\<close> computes from
  the caller's tree, and the caller's tree after the call is the second component of
  \<open>dumpString\<close>, with and without a copy.
\<close>

lemma dumpString_h_refines:
  assumes "tree_in d 0 h obj" and "distinct (addrs d h obj)"
  shows "\<exists>h'. dumpString_h d et_tostring h obj noCopy =
             Some (fst (dumpString et_tostring (the (load d h obj)) noCopy), h') \<and>
           load d h' obj = Some (snd (dumpString et_tostring (the (load d h obj)) noCopy))"
proof (cases noCopy)
  case True
  obtain h2 h3 t where run: "indent_h d h obj 0 = Some h2" "sort_attribs_h d h2 obj = Some h3"
      "load d h3 obj = Some t" and t: "t = sort_attribs (indent (the (load d h obj)) 0)"
    using dumpString_h_run [OF assms(1)] assms(2) by blast
  have "dumpString_h d et_tostring h obj True = Some (rstrip (et_tostring t), h3)"
    by (simp add: dumpString_h_def run)
  then show ?thesis
    using True run(3) t by (simp add: dumpString_def deepcopy_def Let_def)
next
  case False
  obtain h1 x where cp: "deepcopy_h d h obj = Some (h1, x)"
    using deepcopy_h_total [OF assms(1)] by fastforce
  then have e1: "extends h h1" and t1: "tree_in d (alloc h) h1 x"
    using deepcopy_h_fresh by blast+
  from deepcopy_h_copy [OF assms(1) cp] have l1: "load d h1 x = load d h obj"
    and d1: "distinct (addrs d h1 x)"
    by simp_all
  obtain h2 h3 t where run: "indent_h d h1 x 0 = Some h2" "sort_attribs_h d h2 x = Some h3"
      "load d h3 x = Some t" and s3: "same_shape h1 h3" and f3: "frame (alloc h) h1 h3"
      and t: "t = sort_attribs (indent (the (load d h1 x)) 0)"
    using dumpString_h_run [OF t1] d1 by blast
  have res: "dumpString_h d et_tostring h obj False = Some (rstrip (et_tostring t), h3)"
    by (simp add: dumpString_h_def cp run)
  have e3: "extends h h3"
    using e1 s3 f3 by (auto simp: extends_def same_shape_def frame_def)
  have "load d h3 obj = load d h obj" using assms(1) e3 by (rule extends_load_addrs)
  moreover obtain t0 where "load d h obj = Some t0" using tree_in_load [OF assms(1)] by blast
  ultimately show ?thesis
    using False res t l1 by (simp add: dumpString_def deepcopy_def Let_def)
qed

end
